(* ===== verification/Prelude.thy ===== *)
theory Prelude
  imports Main
begin

text \<open>
  Shared vocabulary of the devrestarter development (src/devrestarter.go).
  Paths are strings, times are milliseconds of the monotonic clock as \<open>nat\<close>.
  The error values are the distinct ways \<open>watch\<close> can return an error
  (each \<open>return stackerr.Wrap(err)\<close> of the source, and the index panic of
  \<open>os.Args[0]\<close>).  The \<open>world\<close> record collects what the operating system
  answers to the calls the program makes; it is the environment of the model,
  not code.  The prelude also holds the list lemmas that several components use.
\<close>

type_synonym path = string
type_synonym time_ms = nat

named_theorems loop_simps "unfolding rules of the select cases of the watch loop"
named_theorems sched_simps "unfolding rules of schedules of the watch loop"

datatype werror =
    ErrNewWatcher
  | ErrArgsIndex
  | ErrLookPath string
  | ErrAdd path
  | ErrExec path

record world =
  inotify_ok :: bool
  is_exec :: "path \<Rightarrow> bool"
  add_ok :: "path \<Rightarrow> bool"
  exec_ok :: "path \<Rightarrow> bool"

subsection \<open>Generic list lemmas\<close>

lemma set_List_insert_mono [intro]: "x \<in> set xs \<Longrightarrow> x \<in> set (List.insert y xs)"
  by simp

lemma distinct_List_insert [intro]: "distinct xs \<Longrightarrow> distinct (List.insert y xs)"
  by (simp add: List.insert_def)

lemma sorted_Cons_le: "sorted (t # ts) \<Longrightarrow> u \<in> set ts \<Longrightarrow> t \<le> u"
  by simp

lemma sorted_le_last: "sorted xs \<Longrightarrow> x \<in> set xs \<Longrightarrow> x \<le> last xs"
  by (induction xs) (auto simp: last_in_set)

lemma ex_fun_upd_eq: "(\<exists>j. (f(i := c)) j = v) \<longleftrightarrow> c = v \<or> (\<exists>j. j \<noteq> i \<and> f j = v)"
  by auto

lemma ex_other_eq: "f i \<noteq> v \<Longrightarrow> (\<exists>j. j \<noteq> i \<and> f j = v) \<longleftrightarrow> (\<exists>j. f j = v)"
  by auto

lemma filter_empty_append_iff:
  "filter P (xs @ ys) = [] \<longleftrightarrow> filter P xs = [] \<and> filter P ys = []"
  by simp

end
