(* ===== verification/Fsnotify.thy ===== *)
theory Fsnotify
  imports Prelude "HOL-Library.Word"
begin

unbundle bit_operations_syntax

text \<open>
  The interface of the notification library the program calls
  (github.com/go-fsnotify/fsnotify, not part of the repository and modelled from
  its documented behaviour): an \<open>Event\<close> has a \<open>Name\<close> and an \<open>Op\<close>; a
  \<open>Watcher\<close> keeps the set of watched paths, \<open>NewWatcher\<close> may fail,
  \<open>Add\<close> may fail (and fails on a closed watcher), \<open>Close\<close> closes it.
  Which calls succeed is answered by the \<open>world\<close>.  The watched paths are those whose
  current file carries an inotify watch: when a watched file is removed or renamed away
  (the usual way a build replaces a binary) the kernel drops the watch on that path and
  the library reports an event with the \<open>Remove\<close> or \<open>Rename\<close> bit (\<open>fs_deliver\<close>);
  the path is watched again only after a new \<open>Add\<close>.  \<open>Op\<close> is the library's
  \<open>uint32\<close> bitmask (\<open>Create = 1 << iota\<close>, then \<open>Write\<close>, \<open>Remove\<close>,
  \<open>Rename\<close>, \<open>Chmod\<close>), so one event may carry several operations.
\<close>

type_synonym fs_op = "32 word"

abbreviation op_create :: fs_op where "op_create \<equiv> 1"
abbreviation op_write :: fs_op where "op_write \<equiv> 2"
abbreviation op_remove :: fs_op where "op_remove \<equiv> 4"
abbreviation op_rename :: fs_op where "op_rename \<equiv> 8"
abbreviation op_chmod :: fs_op where "op_chmod \<equiv> 16"

record fs_event =
  ev_name :: path
  ev_op :: fs_op

record watcher =
  w_paths :: "path list"
  w_closed :: bool

definition new_watcher :: "world \<Rightarrow> werror + watcher" where
  "new_watcher w =
     (if inotify_ok w then Inr \<lparr>w_paths = [], w_closed = False\<rparr> else Inl ErrNewWatcher)"

definition watcher_add :: "world \<Rightarrow> path \<Rightarrow> watcher \<Rightarrow> werror + watcher" where
  "watcher_add w p wt =
     (if w_closed wt then Inl (ErrAdd p)
      else if add_ok w p then Inr (wt\<lparr>w_paths := List.insert p (w_paths wt)\<rparr>)
      else Inl (ErrAdd p))"

definition fs_deliver :: "watcher \<Rightarrow> fs_event \<Rightarrow> watcher" where
  "fs_deliver wt e =
     (if ev_op e AND (op_remove OR op_rename) \<noteq> 0
      then wt\<lparr>w_paths := removeAll (ev_name e) (w_paths wt)\<rparr> else wt)"

definition watcher_close :: "watcher \<Rightarrow> watcher" where
  "watcher_close wt = wt\<lparr>w_closed := True\<rparr>"

lemma watcher_add_Inr [loop_simps]:
  "watcher_add w p wt = Inr wt' \<longleftrightarrow>
     \<not> w_closed wt \<and> add_ok w p \<and> wt' = wt\<lparr>w_paths := List.insert p (w_paths wt)\<rparr>"
  by (auto simp: watcher_add_def)

lemma watcher_add_Inl [loop_simps]:
  "watcher_add w p wt = Inl e \<longleftrightarrow> e = ErrAdd p \<and> (w_closed wt \<or> \<not> add_ok w p)"
  by (auto simp: watcher_add_def)

lemma watcher_add_paths:
  "watcher_add w p wt = Inr wt' \<Longrightarrow> set (w_paths wt') = insert p (set (w_paths wt))"
  by (auto simp: watcher_add_Inr)

lemma watcher_add_keeps_open:
  "watcher_add w p wt = Inr wt' \<Longrightarrow> \<not> w_closed wt'"
  by (auto simp: watcher_add_Inr)

lemma watcher_add_distinct:
  "watcher_add w p wt = Inr wt' \<Longrightarrow> distinct (w_paths wt) \<Longrightarrow> distinct (w_paths wt')"
  by (auto simp: watcher_add_Inr)

lemma new_watcher_Inr [loop_simps]:
  "new_watcher w = Inr wt \<longleftrightarrow> inotify_ok w \<and> wt = \<lparr>w_paths = [], w_closed = False\<rparr>"
  by (auto simp: new_watcher_def)

lemma fs_deliver_closed [simp]: "w_closed (fs_deliver wt e) = w_closed wt"
  by (simp add: fs_deliver_def)

lemma fs_deliver_paths:
  "set (w_paths (fs_deliver wt e)) =
     (if ev_op e AND (op_remove OR op_rename) \<noteq> 0 then set (w_paths wt) - {ev_name e}
      else set (w_paths wt))"
  by (simp add: fs_deliver_def)

lemma fs_deliver_distinct [intro]: "distinct (w_paths wt) \<Longrightarrow> distinct (w_paths (fs_deliver wt e))"
  by (simp add: fs_deliver_def distinct_removeAll)

lemma fs_deliver_readd:
  "watcher_add w (ev_name e) (fs_deliver wt e) = Inr wt' \<Longrightarrow>
     set (w_paths wt') = insert (ev_name e) (set (w_paths wt))"
  by (auto simp: watcher_add_Inr fs_deliver_paths split: if_splits)

lemma watcher_close_closed [simp]: "w_closed (watcher_close wt)"
  by (simp add: watcher_close_def)

lemma watcher_close_paths [simp]: "w_paths (watcher_close wt) = w_paths wt"
  by (simp add: watcher_close_def)

end
