(* ===== verification/GoEnv.thy ===== *)
theory GoEnv
  imports Fsnotify
begin

text \<open>
  The process environment and the diagnostic output of the program.
  \<open>os.Environ()\<close> is a list of \<open>KEY=VALUE\<close> strings; \<open>os.Getenv\<close> (Go's
  syscall package, modelled from its documented behaviour) splits each entry at
  its first \<open>=\<close>, ignores entries without one, lets the first entry of a key win
  and answers the empty string for an absent key.  The package variable
  \<open>debug\<close> of devrestarter.go is either \<open>noop\<close> or \<open>log.Println\<close>,
  chosen once by \<open>init()\<close> from \<open>RELOADER_DEBUG\<close>; the log stream is the list of
  lines written so far, one \<open>log_entry\<close> per \<open>log.Println\<close> call.
\<close>

fun split_eq :: "string \<Rightarrow> (string \<times> string) option" where
  "split_eq [] = None"
| "split_eq (c # cs) =
     (if c = CHR ''='' then Some ([], cs)
      else map_option (\<lambda>(k, v). (c # k, v)) (split_eq cs))"

fun getenv :: "string list \<Rightarrow> string \<Rightarrow> string" where
  "getenv [] key = ''''"
| "getenv (e # es) key =
     (case split_eq e of
        None \<Rightarrow> getenv es key
      | Some (k, v) \<Rightarrow> if k = key then v else getenv es key)"

datatype log_entry =
    LogReloader path
  | LogEvent fs_event
  | LogError string
  | LogRestarting path

datatype debug_fn = Noop | LogPrintln

definition log_println :: "log_entry \<Rightarrow> log_entry list \<Rightarrow> log_entry list" where
  "log_println e l = l @ [e]"

fun debug :: "debug_fn \<Rightarrow> log_entry \<Rightarrow> log_entry list \<Rightarrow> log_entry list" where
  "debug Noop e l = l"
| "debug LogPrintln e l = log_println e l"

definition init_debug :: "string list \<Rightarrow> debug_fn" where
  "init_debug env = (if getenv env ''RELOADER_DEBUG'' = '''' then Noop else LogPrintln)"

definition is_diag :: "log_entry \<Rightarrow> bool" where
  "is_diag e = (case e of LogRestarting _ \<Rightarrow> False | _ \<Rightarrow> True)"

subsection \<open>Environment entries\<close>

definition env_entry :: "string \<Rightarrow> string \<Rightarrow> string" where
  "env_entry k v = k @ ''='' @ v"

lemma split_eq_Some:
  "split_eq e = Some (k, v) \<Longrightarrow> e = env_entry k v \<and> CHR ''='' \<notin> set k"
proof (induction e arbitrary: k v)
  case Nil
  then show ?case by simp
next
  case (Cons c cs)
  then show ?case
    by (auto simp: env_entry_def split: if_splits)
qed

lemma split_eq_env_entry:
  "CHR ''='' \<notin> set k \<Longrightarrow> split_eq (env_entry k v) = Some (k, v)"
  by (induction k) (auto simp: env_entry_def)

lemma getenv_env_entries:
  assumes "\<forall>k \<in> fst ` set kvs. CHR ''='' \<notin> set k"
  shows "getenv (map (\<lambda>(k, v). env_entry k v) kvs) key =
           (case map_of kvs key of None \<Rightarrow> '''' | Some v \<Rightarrow> v)"
  using assms
  by (induction kvs) (auto simp: split_eq_env_entry)

lemma debug_Noop [simp]: "debug Noop e l = l"
  by simp

lemma log_println_append [simp]: "log_println e l = l @ [e]"
  by (simp add: log_println_def)

lemma debug_prefix: "\<exists>l'. debug d e l = l @ l'"
  by (cases d) auto

text \<open>C12: the diagnostic toggle.  For an environment made of \<open>KEY=VALUE\<close> entries,
  \<open>init()\<close> chooses \<open>log.Println\<close> exactly when the first entry for
  \<open>RELOADER_DEBUG\<close> has a non-empty value, and \<open>noop\<close> when there is none or it
  is empty.\<close>

theorem init_debug_env:
  assumes "\<forall>k \<in> fst ` set kvs. CHR ''='' \<notin> set k"
  shows "init_debug (map (\<lambda>(k, v). env_entry k v) kvs) =
           (case map_of kvs ''RELOADER_DEBUG'' of
              None \<Rightarrow> Noop
            | Some v \<Rightarrow> if v = '''' then Noop else LogPrintln)"
  using getenv_env_entries [OF assms, of "''RELOADER_DEBUG''"]
  by (simp add: init_debug_def split: option.splits)

theorem init_debug_env_witness:
  "init_debug (map (\<lambda>(k, v). env_entry k v)
      [(''RELOADER_DEBUG'', ''1''), (''RELOADER_DEBUG'', '''')]) = LogPrintln"
proof -
  have "\<forall>k \<in> fst ` set [(''RELOADER_DEBUG'', ''1''), (''RELOADER_DEBUG'', '''')].
          CHR ''='' \<notin> set k"
    by simp
  from init_debug_env [OF this] show ?thesis by simp
qed

end
