(* ===== verification/LookPath.thy ===== *)
theory LookPath
  imports GoEnv
begin

text \<open>
  \<open>exec.LookPath\<close> of Go's os/exec package on Unix (not part of the repository;
  modelled from its documented behaviour), which \<open>watch\<close> calls on
  \<open>os.Args[0]\<close>.  A name that contains a slash is checked as it is and returned
  unchanged; otherwise each directory of \<open>$PATH\<close> is tried in order (the list
  \<open>filepath.SplitList\<close> gives: none for an empty \<open>$PATH\<close>, else the pieces
  between colons), an empty directory standing for the current one, and the first
  candidate that is an executable file is the answer.  The candidate is
  \<open>filepath.Join(dir, file)\<close> (\<open>path_join\<close>): the elements from the first
  non-empty one on, joined by a slash and passed to \<open>filepath.Clean\<close>
  (\<open>go_clean\<close>), which reduces repeated slashes, drops \<open>.\<close> elements, resolves
  \<open>..\<close> against the preceding element (dropping it at the root) and turns an empty
  result into \<open>.\<close>; so an empty \<open>$PATH\<close> entry gives \<open>app\<close>, not
  \<open>./app\<close>, and \<open>d/\<close> gives \<open>d/app\<close>.  The \<open>ErrDot\<close> refusal of a relative
  result, added to Go after this program was written, is not modelled.
\<close>

fun split_colon :: "string \<Rightarrow> string list" where
  "split_colon [] = [[]]"
| "split_colon (c # cs) =
     (if c = CHR '':'' then [] # split_colon cs
      else (case split_colon cs of [] \<Rightarrow> [[c]] | d # ds \<Rightarrow> (c # d) # ds))"

definition split_list :: "string \<Rightarrow> string list" where
  "split_list s = (if s = [] then [] else split_colon s)"

fun join_colon :: "string list \<Rightarrow> string" where
  "join_colon [] = []"
| "join_colon [d] = d"
| "join_colon (d # e # ds) = d @ '':'' @ join_colon (e # ds)"

fun split_slash :: "string \<Rightarrow> string list" where
  "split_slash [] = [[]]"
| "split_slash (c # cs) =
     (if c = CHR ''/'' then [] # split_slash cs
      else (case split_slash cs of [] \<Rightarrow> [[c]] | d # ds \<Rightarrow> (c # d) # ds))"
fun clean_elems :: "bool \<Rightarrow> string list \<Rightarrow> string list \<Rightarrow> string list" where
  "clean_elems r out [] = out"
| "clean_elems r out (e # es) =
     (if e = [] \<or> e = ''.'' then clean_elems r out es
      else if e = ''..'' then
        (if out \<noteq> [] \<and> last out \<noteq> ''..'' then clean_elems r (butlast out) es
         else if r then clean_elems r out es
         else clean_elems r (out @ [e]) es)
      else clean_elems r (out @ [e]) es)"
fun join_slash :: "string list \<Rightarrow> string" where
  "join_slash [] = []"
| "join_slash [d] = d"
| "join_slash (d # e # ds) = d @ ''/'' @ join_slash (e # ds)"
definition go_clean :: "string \<Rightarrow> string" where
  "go_clean p =
     (let r = (p \<noteq> [] \<and> hd p = CHR ''/'');
          b = join_slash (clean_elems r [] (split_slash p))
      in if r then ''/'' @ b else if b = [] then ''.'' else b)"
definition path_join :: "string \<Rightarrow> string \<Rightarrow> string" where
  "path_join d f =
     (if d \<noteq> [] then go_clean (d @ ''/'' @ f) else if f \<noteq> [] then go_clean f else [])"
fun find_exec :: "(path \<Rightarrow> bool) \<Rightarrow> string list \<Rightarrow> string \<Rightarrow> path option" where
  "find_exec ex [] file = None"
| "find_exec ex (d # ds) file =
     (let p = path_join (if d = [] then ''.'' else d) file
      in if ex p then Some p else find_exec ex ds file)"

definition look_path :: "(path \<Rightarrow> bool) \<Rightarrow> string \<Rightarrow> string \<Rightarrow> werror + path" where
  "look_path ex pathenv file =
     (if CHR ''/'' \<in> set file then (if ex file then Inr file else Inl (ErrLookPath file))
      else (case find_exec ex (split_list pathenv) file of
              None \<Rightarrow> Inl (ErrLookPath file)
            | Some p \<Rightarrow> Inr p))"

subsection \<open>Splitting the search path\<close>

lemma split_colon_not_Nil [simp]: "split_colon s \<noteq> []"
  by (induction s) (auto split: list.splits)

lemma split_colon_join: "join_colon (split_colon s) = s"
proof (induction s)
  case Nil
  then show ?case by simp
next
  case (Cons c cs)
  show ?case
  proof (cases "c = CHR '':''")
    case True
    with Cons.IH show ?thesis
      by (cases "split_colon cs") auto
  next
    case False
    with Cons.IH show ?thesis
      by (cases "split_colon cs" rule: list.exhaust)
         (simp, rename_tac d ds, case_tac ds, auto)
  qed
qed

lemma split_colon_no_colon: "CHR '':'' \<notin> set d \<Longrightarrow> split_colon (d @ r) =
    (case split_colon r of [] \<Rightarrow> [d] | e # es \<Rightarrow> (d @ e) # es)"
  by (induction d) (auto split: list.splits)

lemma join_split_colon:
  "ds \<noteq> [] \<Longrightarrow> \<forall>d \<in> set ds. CHR '':'' \<notin> set d \<Longrightarrow> split_colon (join_colon ds) = ds"
proof (induction ds rule: induct_list012)
  case 1
  then show ?case by simp
next
  case (2 d)
  then show ?case using split_colon_no_colon [of d "[]"] by simp
next
  case (3 d e ds)
  then have "split_colon (join_colon (e # ds)) = e # ds" by simp
  with "3.prems" show ?case
    by (simp add: split_colon_no_colon)
qed

subsection \<open>The search\<close>

lemma find_exec_Some:
  "find_exec ex ds file = Some p \<Longrightarrow>
     ex p \<and> (\<exists>d \<in> set ds. p = path_join (if d = [] then ''.'' else d) file)"
  by (induction ds) (auto simp: Let_def split: if_splits)

lemma find_exec_None:
  "find_exec ex ds file = None \<longleftrightarrow>
     (\<forall>d \<in> set ds. \<not> ex (path_join (if d = [] then ''.'' else d) file))"
  by (induction ds) (auto simp: Let_def)

lemma find_exec_first:
  "find_exec ex ds file = Some q \<Longrightarrow>
     \<exists>ds1 d ds2. ds = ds1 @ d # ds2 \<and> q = path_join (if d = [] then ''.'' else d) file \<and> ex q \<and>
       (\<forall>d' \<in> set ds1. \<not> ex (path_join (if d' = [] then ''.'' else d') file))"
proof (induction ds)
  case Nil
  then show ?case by simp
next
  case (Cons d ds)
  show ?case
  proof (cases "ex (path_join (if d = [] then ''.'' else d) file)")
    case True
    with Cons.prems show ?thesis
      by (intro exI [of _ "[]"] exI [of _ d] exI [of _ ds]) (auto simp: Let_def)
  next
    case False
    with Cons.prems have "find_exec ex ds file = Some q" by (simp add: Let_def)
    from Cons.IH [OF this] obtain ds1 d' ds2 where "ds = ds1 @ d' # ds2"
      "q = path_join (if d' = [] then ''.'' else d') file" "ex q"
      "\<forall>d'' \<in> set ds1. \<not> ex (path_join (if d'' = [] then ''.'' else d'') file)" by blast
    with False show ?thesis by (intro exI [of _ "d # ds1"] exI [of _ d'] exI [of _ ds2]) auto
  qed
qed

text \<open>The search path round trip: joining the entries \<open>filepath.SplitList\<close> returns
  with the list separator gives back the \<open>$PATH\<close> value, for every value (the empty one
  included, which has no entries); splitting a non-empty joined value whose entries contain
  no colon gives back the entries.\<close>

lemma path_list_roundtrip:
  "join_colon (split_list s) = s \<and>
   (join_colon ds \<noteq> [] \<longrightarrow> (\<forall>d \<in> set ds. CHR '':'' \<notin> set d) \<longrightarrow>
      split_list (join_colon ds) = ds)"
proof
  show "join_colon (split_list s) = s"
    by (simp add: split_list_def split_colon_join)
next
  have "join_colon ds \<noteq> [] \<Longrightarrow> ds \<noteq> []" by auto
  then show "join_colon ds \<noteq> [] \<longrightarrow> (\<forall>d \<in> set ds. CHR '':'' \<notin> set d) \<longrightarrow>
      split_list (join_colon ds) = ds"
    by (simp add: split_list_def join_split_colon)
qed

lemma look_path_Inr_exec: "look_path ex pe file = Inr p \<Longrightarrow> ex p"
  by (auto simp: look_path_def dest: find_exec_Some split: if_splits option.splits)

lemma look_path_Inl: "look_path ex pe file = Inl e \<Longrightarrow> e = ErrLookPath file"
  by (auto simp: look_path_def split: if_splits option.splits)


end
