(* ===== verification/Watch.thy ===== *)
theory Watch
  imports LookPath
begin

text \<open>
  The function \<open>watch\<close> of src/devrestarter.go (lines 30--65).  Its startup
  (\<open>watch_start\<close>) creates the watcher, resolves \<open>os.Args[0]\<close> with
  \<open>exec.LookPath\<close>, writes the diagnostic line and registers the path; every
  failure returns an error after the deferred \<open>watcher.Close()\<close> has run.  The
  \<open>for { select { ... } }\<close> loop is a step function over the case the select
  chose (\<open>sel\<close>): the timer channel \<open>doit\<close> (\<open>on_fire\<close>), an event
  (\<open>on_event\<close>) or a backend error (\<open>on_error\<close>).  \<open>doit\<close> is \<open>None\<close> while
  the channel is nil and \<open>Some d\<close> once \<open>time.After\<close> made it deliver at time
  \<open>d\<close>; the select may choose the timer only from then on
  (\<open>select_ready\<close>), and chooses freely among ready cases.  A run of the loop
  is a schedule, a list of timed select choices; receiving an event also carries the
  library's side of it (\<open>Fsnotify.fs_deliver\<close>: a Remove or Rename has dropped the
  watch on the event's path).  An admissible schedule
  (\<open>sched_ok\<close>) has nondecreasing times and only ready choices.  The process
  identity \<open>proc\<close> (\<open>os.Args\<close>, \<open>os.Environ()\<close>) is read when the timer fires.
\<close>

record proc =
  args :: "string list"
  environ :: "string list"

record exec_req =
  exec_path :: path
  exec_argv :: "string list"
  exec_envv :: "string list"

record wstate =
  argv0 :: path
  doit :: "time_ms option"
  wt :: watcher
  logs :: "log_entry list"

datatype watch_ret =
    Failed werror "watcher option" "log_entry list"
  | Execd exec_req "log_entry list"
  | Looping wstate

datatype step_out = Cont wstate | Exit watch_ret

datatype sel = Fire | Event fs_event | WError string

definition debounce_ms :: nat where
  "debounce_ms = 500"

definition watch_start :: "debug_fn \<Rightarrow> world \<Rightarrow> proc \<Rightarrow> watch_ret + wstate" where
  "watch_start dbg w p =
     (case new_watcher w of
        Inl e \<Rightarrow> Inl (Failed e None [])
      | Inr wt0 \<Rightarrow>
          (case args p of
             [] \<Rightarrow> Inl (Failed ErrArgsIndex (Some (watcher_close wt0)) [])
           | a0 # _ \<Rightarrow>
               (case look_path (is_exec w) (getenv (environ p) ''PATH'') a0 of
                  Inl e \<Rightarrow> Inl (Failed e (Some (watcher_close wt0)) [])
                | Inr a \<Rightarrow>
                    (let l = debug dbg (LogReloader a) [] in
                     case watcher_add w a wt0 of
                       Inl e \<Rightarrow> Inl (Failed e (Some (watcher_close wt0)) l)
                     | Inr wt1 \<Rightarrow> Inr \<lparr>argv0 = a, doit = None, wt = wt1, logs = l\<rparr>))))"

definition on_fire :: "world \<Rightarrow> proc \<Rightarrow> wstate \<Rightarrow> step_out" where
  "on_fire w p s =
     (let l = log_println (LogRestarting (argv0 s)) (logs s) in
      if exec_ok w (argv0 s)
      then Exit (Execd \<lparr>exec_path = argv0 s, exec_argv = args p, exec_envv = environ p\<rparr> l)
      else Exit (Failed (ErrExec (argv0 s)) (Some (watcher_close (wt s))) l))"

definition on_event :: "debug_fn \<Rightarrow> world \<Rightarrow> time_ms \<Rightarrow> wstate \<Rightarrow> fs_event \<Rightarrow> step_out" where
  "on_event dbg w now s e =
     (let s1 = s\<lparr>logs := debug dbg (LogEvent e) (logs s), doit := Some (now + debounce_ms)\<rparr>
      in case watcher_add w (ev_name e) (wt s1) of
           Inl err \<Rightarrow> Exit (Failed err (Some (watcher_close (wt s1))) (logs s1))
         | Inr wt' \<Rightarrow> Cont (s1\<lparr>wt := wt'\<rparr>))"

definition on_error :: "debug_fn \<Rightarrow> wstate \<Rightarrow> string \<Rightarrow> step_out" where
  "on_error dbg s m = Cont (s\<lparr>logs := debug dbg (LogError m) (logs s)\<rparr>)"

fun loop_step :: "debug_fn \<Rightarrow> world \<Rightarrow> proc \<Rightarrow> time_ms \<Rightarrow> wstate \<Rightarrow> sel \<Rightarrow> step_out" where
  "loop_step dbg w p now s Fire = on_fire w p s"
| "loop_step dbg w p now s (Event e) = on_event dbg w now (s\<lparr>wt := fs_deliver (wt s) e\<rparr>) e"
| "loop_step dbg w p now s (WError m) = on_error dbg s m"

fun select_ready :: "time_ms \<Rightarrow> wstate \<Rightarrow> sel \<Rightarrow> bool" where
  "select_ready now s Fire = (case doit s of None \<Rightarrow> False | Some d \<Rightarrow> d \<le> now)"
| "select_ready now s (Event e) = True"
| "select_ready now s (WError m) = True"

fun loop_run :: "debug_fn \<Rightarrow> world \<Rightarrow> proc \<Rightarrow> wstate \<Rightarrow> (time_ms \<times> sel) list \<Rightarrow> watch_ret" where
  "loop_run dbg w p s [] = Looping s"
| "loop_run dbg w p s ((t, c) # cs) =
     (case loop_step dbg w p t s c of
        Cont s' \<Rightarrow> loop_run dbg w p s' cs
      | Exit r \<Rightarrow> r)"

fun sched_ok ::
  "debug_fn \<Rightarrow> world \<Rightarrow> proc \<Rightarrow> time_ms \<Rightarrow> wstate \<Rightarrow> (time_ms \<times> sel) list \<Rightarrow> bool" where
  "sched_ok dbg w p t0 s [] = True"
| "sched_ok dbg w p t0 s ((t, c) # cs) =
     (t0 \<le> t \<and> select_ready t s c \<and>
      (case loop_step dbg w p t s c of
         Cont s' \<Rightarrow> sched_ok dbg w p t s' cs
       | Exit r \<Rightarrow> cs = []))"

definition watch :: "debug_fn \<Rightarrow> world \<Rightarrow> proc \<Rightarrow> (time_ms \<times> sel) list \<Rightarrow> watch_ret" where
  "watch dbg w p sched =
     (case watch_start dbg w p of Inl r \<Rightarrow> r | Inr s \<Rightarrow> loop_run dbg w p s sched)"

inductive loop_reach :: "debug_fn \<Rightarrow> world \<Rightarrow> proc \<Rightarrow> time_ms \<Rightarrow> wstate \<Rightarrow> bool"
  for dbg w p where
  start: "watch_start dbg w p = Inr s \<Longrightarrow> loop_reach dbg w p t s"
| step: "loop_reach dbg w p t s \<Longrightarrow> t \<le> t' \<Longrightarrow> select_ready t' s c \<Longrightarrow>
           loop_step dbg w p t' s c = Cont s' \<Longrightarrow> loop_reach dbg w p t' s'"

definition loop_inv :: "debug_fn \<Rightarrow> time_ms \<Rightarrow> wstate \<Rightarrow> bool" where
  "loop_inv dbg t s \<longleftrightarrow>
     argv0 s \<in> set (w_paths (wt s)) \<and> \<not> w_closed (wt s) \<and> distinct (w_paths (wt s)) \<and>
     (\<forall>d. doit s = Some d \<longrightarrow> d \<le> t + debounce_ms) \<and>
     (\<forall>e \<in> set (logs s). is_diag e) \<and> (dbg = Noop \<longrightarrow> logs s = [])"

subsection \<open>Observations of a run\<close>

text \<open>The lines a result has written, the diagnostic line each select case writes,
  the paths the events of a schedule name, and the result with its log removed (for comparing runs that differ only in what
  they logged).\<close>

definition ret_logs :: "watch_ret \<Rightarrow> log_entry list" where
  "ret_logs r = (case r of Failed e wo l \<Rightarrow> l | Execd x l \<Rightarrow> l | Looping s \<Rightarrow> logs s)"

fun diag_line :: "sel \<Rightarrow> log_entry list" where
  "diag_line Fire = []"
| "diag_line (Event e) = [LogEvent e]"
| "diag_line (WError m) = [LogError m]"

fun diag_lines :: "(time_ms \<times> sel) list \<Rightarrow> log_entry list" where
  "diag_lines [] = []"
| "diag_lines ((t, c) # cs) = diag_line c @ diag_lines cs"

fun event_names :: "(time_ms \<times> sel) list \<Rightarrow> path list" where
  "event_names [] = []"
| "event_names ((t, Event e) # cs) = ev_name e # event_names cs"
| "event_names (_ # cs) = event_names cs"

definition forget_logs :: "wstate \<Rightarrow> wstate" where
  "forget_logs s = s\<lparr>logs := []\<rparr>"

fun strip_ret :: "watch_ret \<Rightarrow> watch_ret" where
  "strip_ret (Failed e wo l) = Failed e wo []"
| "strip_ret (Execd x l) = Execd x []"
| "strip_ret (Looping s) = Looping (forget_logs s)"

fun strip_out :: "step_out \<Rightarrow> step_out" where
  "strip_out (Cont s) = Cont (forget_logs s)"
| "strip_out (Exit r) = Exit (strip_ret r)"

subsection \<open>Concrete instances\<close>

text \<open>The spec's scenario: the program runs as \<open>/tmp/app\<close>, the only executable.\<close>

definition demo_world :: world where
  "demo_world = \<lparr>inotify_ok = True, is_exec = (\<lambda>q. q = ''/tmp/app''),
                  add_ok = (\<lambda>q. True), exec_ok = (\<lambda>q. True)\<rparr>"

definition demo_proc :: proc where
  "demo_proc = \<lparr>args = [''/tmp/app'', ''-v''], environ = [''PATH=/usr/bin'', ''HOME=/root'']\<rparr>"

definition demo_event :: fs_event where
  "demo_event = \<lparr>ev_name = ''/tmp/app'', ev_op = op_write\<rparr>"

definition demo_remove :: fs_event where
  "demo_remove = \<lparr>ev_name = ''/tmp/app'', ev_op = op_remove\<rparr>"

definition demo_start :: wstate where
  "demo_start = \<lparr>argv0 = ''/tmp/app'', doit = None,
                  wt = \<lparr>w_paths = [''/tmp/app''], w_closed = False\<rparr>, logs = []\<rparr>"

definition demo_req :: exec_req where
  "demo_req = \<lparr>exec_path = ''/tmp/app'', exec_argv = [''/tmp/app'', ''-v''],
                exec_envv = [''PATH=/usr/bin'', ''HOME=/root'']\<rparr>"

subsection \<open>Lemmas\<close>

declare on_fire_def [loop_simps] on_event_def [loop_simps] on_error_def [loop_simps]

lemmas demo_simps = demo_world_def demo_proc_def demo_event_def demo_start_def demo_req_def
  new_watcher_def look_path_def watcher_add_def debounce_ms_def fs_deliver_def

lemma demo_watch_start: "watch_start dbg demo_world demo_proc = Inr (demo_start\<lparr>logs := debug dbg (LogReloader ''/tmp/app'') []\<rparr>)"
  by (simp add: watch_start_def demo_simps)

lemma loop_step_argv0:
  "loop_step dbg w p t s c = Cont s' \<Longrightarrow> argv0 s' = argv0 s"
  by (cases c) (auto simp: loop_simps Let_def split: sum.splits if_splits)

lemma loop_step_Exit:
  "loop_step dbg w p t s c = Exit r \<Longrightarrow>
     (c = Fire \<and> (let l = logs s @ [LogRestarting (argv0 s)] in
        r = (if exec_ok w (argv0 s)
             then Execd \<lparr>exec_path = argv0 s, exec_argv = args p, exec_envv = environ p\<rparr> l
             else Failed (ErrExec (argv0 s)) (Some (watcher_close (wt s))) l))) \<or>
     (\<exists>e. c = Event e \<and> r = Failed (ErrAdd (ev_name e)) (Some (watcher_close (fs_deliver (wt s) e)))
             (debug dbg (LogEvent e) (logs s)))"
  by (cases c) (auto simp: loop_simps Let_def split: sum.splits)

lemma loop_run_Execd:
  "loop_run dbg w p s sched = Execd r l \<Longrightarrow>
     r = \<lparr>exec_path = argv0 s, exec_argv = args p, exec_envv = environ p\<rparr> \<and>
     exec_ok w (argv0 s) \<and> (\<exists>l0. l = l0 @ [LogRestarting (argv0 s)])"
proof (induction sched arbitrary: s)
  case Nil
  then show ?case by simp
next
  case (Cons x sched)
  obtain t c where x: "x = (t, c)" by fastforce
  show ?case
  proof (cases "loop_step dbg w p t s c")
    case (Cont s')
    then have "argv0 s' = argv0 s" by (rule loop_step_argv0)
    moreover from Cons.prems x Cont have "loop_run dbg w p s' sched = Execd r l" by simp
    ultimately show ?thesis using Cons.IH by metis
  next
    case (Exit r')
    with Cons.prems x have "r' = Execd r l" by simp
    with Exit show ?thesis
      by (auto dest!: loop_step_Exit simp: Let_def split: if_splits)
  qed
qed

lemma watch_start_Inr:
  "watch_start dbg w p = Inr s \<longleftrightarrow>
     (\<exists>a0 rest a. inotify_ok w \<and> args p = a0 # rest \<and>
        look_path (is_exec w) (getenv (environ p) ''PATH'') a0 = Inr a \<and> add_ok w a \<and>
        s = \<lparr>argv0 = a, doit = None, wt = \<lparr>w_paths = [a], w_closed = False\<rparr>,
              logs = debug dbg (LogReloader a) []\<rparr>)"
  by (auto simp: watch_start_def new_watcher_def watcher_add_def Let_def
      split: list.splits sum.splits)

text \<open>C3: restart argument fidelity.  Whenever \<open>watch\<close> replaces the process image,
  the call is \<open>syscall.Exec\<close> of the path \<open>exec.LookPath\<close> resolved from
  \<open>os.Args[0]\<close> at startup, with the current \<open>os.Args\<close> unchanged (argument zero
  included) and the current \<open>os.Environ()\<close> unchanged; the exec succeeded, and the
  last line written before it is the unconditional "Restarting" line for that path.\<close>

theorem watch_exec_fidelity:
  "watch dbg w p sched = Execd r l \<Longrightarrow>
     (\<exists>a0 rest. args p = a0 # rest \<and>
        look_path (is_exec w) (getenv (environ p) ''PATH'') a0 = Inr (exec_path r)) \<and>
     exec_argv r = args p \<and> exec_envv r = environ p \<and> exec_ok w (exec_path r) \<and>
     last l = LogRestarting (exec_path r)"
proof -
  assume ret: "watch dbg w p sched = Execd r l"
  have "\<not> (\<exists>r'. watch_start dbg w p = Inl r')"
    using ret by (auto simp: watch_def watch_start_def Let_def split: sum.splits list.splits)
  then obtain s where s: "watch_start dbg w p = Inr s"
    by (cases "watch_start dbg w p") auto
  with ret have "loop_run dbg w p s sched = Execd r l" by (simp add: watch_def)
  then have "r = \<lparr>exec_path = argv0 s, exec_argv = args p, exec_envv = environ p\<rparr>"
    and "exec_ok w (argv0 s)" and "\<exists>l0. l = l0 @ [LogRestarting (argv0 s)]"
    by (blast dest: loop_run_Execd)+
  with s show ?thesis by (auto simp: watch_start_Inr)
qed

lemma loop_step_Fire_Exit [simp]: "\<exists>r. loop_step dbg w p t s Fire = Exit r"
  by (simp add: loop_simps Let_def)

lemma on_event_Cont:
  "on_event dbg w t s e = Cont s' \<longleftrightarrow>
     \<not> w_closed (wt s) \<and> add_ok w (ev_name e) \<and>
     s' = s\<lparr>logs := debug dbg (LogEvent e) (logs s), doit := Some (t + debounce_ms),
            wt := (wt s)\<lparr>w_paths := List.insert (ev_name e) (w_paths (wt s))\<rparr>\<rparr>"
  by (auto simp: loop_simps Let_def split: sum.splits)

lemma loop_step_not_Looping [simp]: "loop_step dbg w p t s c \<noteq> Exit (Looping s')"
  by (cases c) (auto simp: loop_simps Let_def split: sum.splits)

lemma loop_run_Looping_argv0:
  "loop_run dbg w p s sched = Looping s' \<Longrightarrow> argv0 s' = argv0 s"
proof (induction sched arbitrary: s)
  case Nil
  then show ?case by simp
next
  case (Cons x sched)
  obtain t c where x: "x = (t, c)" by fastforce
  with Cons.prems obtain s1 where s1: "loop_step dbg w p t s c = Cont s1"
    by (cases "loop_step dbg w p t s c") (auto simp: Let_def split: watch_ret.splits)
  with Cons x show ?case by (auto dest: loop_step_argv0)
qed

lemma watch_start_inv: "watch_start dbg w p = Inr s \<Longrightarrow> loop_inv dbg t s"
  by (cases dbg) (auto simp: watch_start_Inr loop_inv_def watcher_add_Inr is_diag_def)

lemma loop_step_inv:
  assumes "loop_inv dbg t s" "t \<le> t'" "loop_step dbg w p t' s c = Cont s'"
  shows "loop_inv dbg t' s'"
proof (cases c)
  case Fire
  with assms(3) show ?thesis by (auto simp: loop_simps Let_def split: if_splits)
next
  case (Event e)
  with assms show ?thesis
    by (cases dbg) (auto simp: on_event_Cont loop_inv_def is_diag_def fs_deliver_def distinct_removeAll)
next
  case (WError m)
  with assms show ?thesis
    by (cases dbg) (auto simp: loop_inv_def is_diag_def loop_simps)
qed

text \<open>C8: loop invariant.  In every state the watch loop can reach (by any admissible
  sequence of select choices), the resolved executable is registered with the watcher, the
  watcher is open and its path list has no duplicates, a pending restart is due at most
  \<open>debounce_ms\<close> after the current time, only diagnostic lines have been written, and
  none at all when diagnostics are off.\<close>

theorem loop_reach_inv: "loop_reach dbg w p t s \<Longrightarrow> loop_inv dbg t s"
proof (induction rule: loop_reach.induct)
  case (start s t)
  then show ?case by (rule watch_start_inv)
next
  case (step t s t' c s')
  then show ?case by (blast intro: loop_step_inv)
qed

lemma loop_step_paths:
  "loop_step dbg w p t s c = Cont s' \<Longrightarrow>
     set (w_paths (wt s')) = set (w_paths (wt s)) \<union> set (event_names [(t, c)])"
proof (cases c)
  case (Event e)
  moreover assume "loop_step dbg w p t s c = Cont s'"
  ultimately obtain wt' where "watcher_add w (ev_name e) (fs_deliver (wt s) e) = Inr wt'"
    "wt s' = wt'"
    by (auto simp: loop_simps Let_def split: sum.splits)
  with Event show ?thesis by (simp add: fs_deliver_readd)
qed (auto simp: loop_simps Let_def split: if_splits)

lemma loop_run_paths:
  "loop_run dbg w p s xs = Looping s' \<Longrightarrow>
     set (w_paths (wt s')) = set (w_paths (wt s)) \<union> set (event_names xs)"
proof (induction xs arbitrary: s)
  case Nil
  then show ?case by simp
next
  case (Cons x xs)
  obtain t c where x: "x = (t, c)" by fastforce
  with Cons.prems obtain s1 where s1: "loop_step dbg w p t s c = Cont s1"
    by (cases "loop_step dbg w p t s c") (auto simp: Let_def split: watch_ret.splits)
  with Cons.prems x have "set (w_paths (wt s')) = set (w_paths (wt s1)) \<union> set (event_names xs)"
    by (intro Cons.IH) simp
  with loop_step_paths [OF s1] x show ?case by (cases c) auto
qed

lemma watch_start_Inl: "watch_start dbg w p = Inl r \<Longrightarrow> \<exists>e wo l. r = Failed e wo l"
  by (auto simp: watch_start_def Let_def split: sum.splits list.splits)

text \<open>C17: the binary stays watched across its replacement.  A Remove or Rename event
  drops the kernel's watch on its path, and the event case re-registers the path, so as long
  as \<open>watch\<close> runs the watched paths are exactly the resolved executable and every path
  an event has named: no watch is ever lost.\<close>

theorem watch_rewatches:
  "watch dbg w p xs = Looping s' \<Longrightarrow>
     set (w_paths (wt s')) = insert (argv0 s') (set (event_names xs))"
proof (cases "watch_start dbg w p")
  case (Inl r)
  moreover assume "watch dbg w p xs = Looping s'"
  ultimately show ?thesis by (auto simp: watch_def dest: watch_start_Inl)
next
  case (Inr s)
  moreover assume run: "watch dbg w p xs = Looping s'"
  ultimately have "loop_run dbg w p s xs = Looping s'" by (simp add: watch_def)
  with Inr show ?thesis
    by (auto simp: watch_start_Inr watcher_add_Inr loop_run_paths loop_run_Looping_argv0
      dest: loop_run_Looping_argv0)
qed

lemma loop_run_append:
  "loop_run dbg w p s (xs @ ys) =
     (case loop_run dbg w p s xs of Looping s' \<Rightarrow> loop_run dbg w p s' ys | r \<Rightarrow> r)"
proof (induction xs arbitrary: s)
  case Nil
  then show ?case by simp
next
  case (Cons x xs)
  obtain t c where x: "x = (t, c)" by fastforce
  show ?case
  proof (cases "loop_step dbg w p t s c")
    case (Cont s')
    with Cons.IH x show ?thesis by simp
  next
    case (Exit r)
    with x show ?thesis
      by (cases r) (auto dest!: loop_step_Exit simp: Let_def split: if_splits)
  qed
qed

lemma loop_run_Failed:
  "loop_run dbg w p s sched = Failed e wo l \<Longrightarrow> \<exists>x. wo = Some x \<and> w_closed x"
proof (induction sched arbitrary: s)
  case Nil
  then show ?case by simp
next
  case (Cons x sched)
  obtain t c where x: "x = (t, c)" by fastforce
  show ?case
  proof (cases "loop_step dbg w p t s c")
    case (Cont s')
    with Cons x show ?thesis by simp
  next
    case (Exit r)
    with Cons.prems x have "r = Failed e wo l" by simp
    with Exit show ?thesis
      by (auto dest!: loop_step_Exit simp: Let_def split: if_splits)
  qed
qed

lemma loop_step_open:
  "\<not> w_closed (wt s) \<Longrightarrow> loop_step dbg w p t s c = Cont s' \<Longrightarrow> \<not> w_closed (wt s')"
  by (cases c) (auto simp: loop_simps Let_def split: sum.splits if_splits)

lemma loop_step_Failed_cause:
  "\<not> w_closed (wt s) \<Longrightarrow> loop_step dbg w p t s c = Exit (Failed e wo l) \<Longrightarrow>
     (\<exists>n. e = ErrAdd n \<and> \<not> add_ok w n) \<or> (\<exists>a. e = ErrExec a \<and> \<not> exec_ok w a)"
  by (cases c) (auto simp: loop_simps Let_def split: sum.splits if_splits)

lemma loop_run_Failed_cause:
  "\<not> w_closed (wt s) \<Longrightarrow> loop_run dbg w p s sched = Failed e wo l \<Longrightarrow>
     (\<exists>n. e = ErrAdd n \<and> \<not> add_ok w n) \<or> (\<exists>a. e = ErrExec a \<and> \<not> exec_ok w a)"
proof (induction sched arbitrary: s)
  case Nil
  then show ?case by simp
next
  case (Cons x sched)
  obtain t c where x: "x = (t, c)" by fastforce
  show ?case
  proof (cases "loop_step dbg w p t s c")
    case (Cont s')
    with Cons.prems x have "\<not> w_closed (wt s')" "loop_run dbg w p s' sched = Failed e wo l"
      using loop_step_open [OF Cons.prems(1) Cont] by auto
    then show ?thesis by (rule Cons.IH)
  next
    case (Exit r)
    with Cons.prems x have "loop_step dbg w p t s c = Exit (Failed e wo l)" by simp
    with Cons.prems(1) show ?thesis by (rule loop_step_Failed_cause)
  qed
qed

lemma watch_start_Failed_cause:
  "watch_start dbg w p = Inl (Failed e wo l) \<Longrightarrow>
     (e = ErrNewWatcher \<and> \<not> inotify_ok w) \<or> (e = ErrArgsIndex \<and> args p = []) \<or>
     (args p \<noteq> [] \<and> e = ErrLookPath (hd (args p)) \<and>
        (\<forall>q. look_path (is_exec w) (getenv (environ p) ''PATH'') (hd (args p)) \<noteq> Inr q)) \<or>
     (\<exists>n. e = ErrAdd n \<and> \<not> add_ok w n)"
  by (auto simp: watch_start_def new_watcher_def watcher_add_def Let_def
      split: list.splits sum.splits if_splits dest: look_path_Inl)

text \<open>C9: fatal errors release the watcher.  Whenever \<open>watch\<close> ends with an error
  (startup failure, failed re-registration, failed exec, or the index panic of
  \<open>os.Args[0]\<close>), either the watcher was never created (\<open>NewWatcher\<close> failed) or
  the deferred \<open>watcher.Close()\<close> has closed it.\<close>

theorem watch_Failed_closes:
  "watch dbg w p sched = Failed e wo l \<Longrightarrow>
     (e = ErrNewWatcher \<and> wo = None) \<or> (\<exists>x. wo = Some x \<and> w_closed x)"
  by (auto simp: watch_def watch_start_def new_watcher_def Let_def
      split: sum.splits list.splits if_splits dest: loop_run_Failed)

lemma loop_step_Noop_logs:
  "logs s = [] \<Longrightarrow> loop_step Noop w p t s c = Cont s' \<Longrightarrow> logs s' = []"
  by (cases c) (auto simp: loop_simps Let_def split: sum.splits if_splits)

lemma loop_run_Noop_logs:
  "logs s = [] \<Longrightarrow> filter is_diag (ret_logs (loop_run Noop w p s sched)) = []"
proof (induction sched arbitrary: s)
  case Nil
  then show ?case by (simp add: ret_logs_def)
next
  case (Cons x sched)
  obtain t c where x: "x = (t, c)" by fastforce
  show ?case
  proof (cases "loop_step Noop w p t s c")
    case (Cont s')
    with Cons.prems have "logs s' = []" by (rule loop_step_Noop_logs)
    with Cons.IH x Cont show ?thesis by simp
  next
    case (Exit r)
    with Cons.prems x show ?thesis
      by (auto dest!: loop_step_Exit simp: ret_logs_def is_diag_def Let_def split: if_splits)
  qed
qed

lemma watch_Noop_no_diag: "filter is_diag (ret_logs (watch Noop w p sched)) = []"
proof (cases "watch_start Noop w p")
  case (Inl r)
  then show ?thesis
    by (auto simp: watch_def watch_start_def Let_def ret_logs_def split: sum.splits list.splits)
next
  case (Inr s)
  then have "logs s = []" by (auto simp: watch_start_Inr)
  with Inr show ?thesis by (simp add: watch_def loop_run_Noop_logs)
qed

lemma loop_run_debug_logs:
  "loop_run LogPrintln w p s sched = Looping s' \<Longrightarrow>
     logs s' = logs s @ diag_lines sched"
proof (induction sched arbitrary: s)
  case Nil
  then show ?case by simp
next
  case (Cons x sched)
  obtain t c where x: "x = (t, c)" by fastforce
  from Cons.prems x obtain s1 where s1: "loop_step LogPrintln w p t s c = Cont s1"
    by (cases "loop_step LogPrintln w p t s c")
       (auto dest!: loop_step_Exit simp: Let_def split: if_splits)
  with Cons.prems x have "logs s' = logs s1 @ diag_lines sched"
    by (simp add: Cons.IH)
  moreover from s1 have "logs s1 = logs s @ diag_line c"
    by (cases c) (auto simp: loop_simps Let_def split: sum.splits if_splits)
  ultimately show ?case using x by simp
qed

text \<open>C11: diagnostic gating, on.  With \<open>debug = log.Println\<close>, a watcher still in its
  loop has written exactly the resolved path line followed by one line per file event and
  per backend error it received, in the order received.\<close>

theorem watch_debug_logs:
  "watch LogPrintln w p sched = Looping s \<Longrightarrow>
     logs s = LogReloader (argv0 s) # diag_lines sched"
proof -
  assume ret: "watch LogPrintln w p sched = Looping s"
  then obtain s0 where s0: "watch_start LogPrintln w p = Inr s0"
    and run: "loop_run LogPrintln w p s0 sched = Looping s"
    by (auto simp: watch_def watch_start_def Let_def split: sum.splits list.splits)
  from run have "argv0 s = argv0 s0" by (rule loop_run_Looping_argv0)
  with s0 run show ?thesis
    by (auto simp: watch_start_Inr dest: loop_run_debug_logs)
qed

lemma forget_logs_eq:
  "forget_logs s = forget_logs s' \<longleftrightarrow> argv0 s = argv0 s' \<and> doit s = doit s' \<and> wt s = wt s'"
  by (cases s; cases s') (auto simp: forget_logs_def)

lemma loop_step_forget:
  assumes "forget_logs s = forget_logs s'"
  shows "strip_out (loop_step dbg w p t s c) = strip_out (loop_step dbg w p t s' c)"
proof -
  from assms have eqs: "argv0 s = argv0 s'" "doit s = doit s'" "wt s = wt s'"
    by (simp_all add: forget_logs_eq)
  show ?thesis
  proof (cases c)
    case Fire
    with eqs show ?thesis by (simp add: loop_simps Let_def)
  next
    case (Event e)
    with eqs show ?thesis
      by (simp add: loop_simps Let_def forget_logs_eq split: sum.splits)
  next
    case (WError m)
    with eqs show ?thesis by (simp add: loop_simps forget_logs_eq)
  qed
qed

lemma loop_run_forget:
  "forget_logs s = forget_logs s' \<Longrightarrow>
     strip_ret (loop_run dbg w p s sched) = strip_ret (loop_run dbg w p s' sched)"
proof (induction sched arbitrary: s s')
  case Nil
  then show ?case by simp
next
  case (Cons x sched)
  obtain t c where x: "x = (t, c)" by fastforce
  from Cons.prems have eq: "strip_out (loop_step dbg w p t s c) = strip_out (loop_step dbg w p t s' c)"
    by (rule loop_step_forget)
  show ?case
  proof (cases "loop_step dbg w p t s c")
    case (Cont s1)
    with eq obtain s1' where s1': "loop_step dbg w p t s' c = Cont s1'"
      and f: "forget_logs s1 = forget_logs s1'"
      by (cases "loop_step dbg w p t s' c") auto
    have "strip_ret (loop_run dbg w p s1 sched) = strip_ret (loop_run dbg w p s1' sched)"
      using f by (rule Cons.IH)
    with Cont s1' x show ?thesis by simp
  next
    case (Exit r)
    with eq obtain r' where "loop_step dbg w p t s' c = Exit r'" and "strip_ret r = strip_ret r'"
      by (cases "loop_step dbg w p t s' c") auto
    with Exit x show ?thesis by simp
  qed
qed

text \<open>C5: non-fatal isolation of backend errors.  Inserting a backend error anywhere
  into a run of the loop changes nothing but the log: the pending restart, the watcher,
  the outcome (restart, failure or still looping) are those of the run without it.\<close>

theorem error_isolation:
  "strip_ret (loop_run dbg w p s (xs @ (t, WError m) # ys)) =
   strip_ret (loop_run dbg w p s (xs @ ys))"
proof (induction xs arbitrary: s)
  case Nil
  have "forget_logs (s\<lparr>logs := debug dbg (LogError m) (logs s)\<rparr>) = forget_logs s"
    by (simp add: forget_logs_def)
  then have "strip_ret (loop_run dbg w p (s\<lparr>logs := debug dbg (LogError m) (logs s)\<rparr>) ys) =
             strip_ret (loop_run dbg w p s ys)"
    by (rule loop_run_forget)
  then show ?case by (simp add: loop_simps)
next
  case (Cons x xs)
  obtain t' c where x: "x = (t', c)" by fastforce
  with Cons.IH show ?case
    by (cases "loop_step dbg w p t' s c") auto
qed

subsection \<open>Witnesses\<close>

theorem watch_exec_fidelity_witness:
  "watch Noop demo_world demo_proc [(0, Event demo_event), (500, Fire)] =
     Execd demo_req [LogRestarting ''/tmp/app''] \<and>
   exec_argv demo_req = args demo_proc \<and> exec_envv demo_req = environ demo_proc \<and>
   look_path (is_exec demo_world) (getenv (environ demo_proc) ''PATH'') ''/tmp/app'' =
     Inr ''/tmp/app''"
proof -
  have run: "watch Noop demo_world demo_proc [(0, Event demo_event), (500, Fire)] =
     Execd demo_req [LogRestarting ''/tmp/app'']"
    by (simp add: watch_def demo_watch_start) (simp add: loop_simps demo_simps Let_def)
  from watch_exec_fidelity [OF run] have
    "exec_argv demo_req = args demo_proc \<and> exec_envv demo_req = environ demo_proc"
    by simp
  with run show ?thesis by (simp add: demo_simps)
qed

theorem loop_reach_inv_witness:
  "loop_reach Noop demo_world demo_proc 0 demo_start \<and> loop_inv Noop 0 demo_start"
proof -
  have "loop_reach Noop demo_world demo_proc 0 demo_start"
    by (rule loop_reach.start) (simp add: demo_watch_start demo_start_def)
  with loop_reach_inv show ?thesis by blast
qed

theorem watch_Failed_closes_witness:
  "watch Noop (demo_world\<lparr>add_ok := (\<lambda>q. False)\<rparr>) demo_proc [] =
     Failed (ErrAdd ''/tmp/app'') (Some \<lparr>w_paths = [], w_closed = True\<rparr>) [] \<and>
   w_closed \<lparr>w_paths = [], w_closed = True\<rparr>"
proof -
  have run: "watch Noop (demo_world\<lparr>add_ok := (\<lambda>q. False)\<rparr>) demo_proc [] =
     Failed (ErrAdd ''/tmp/app'') (Some \<lparr>w_paths = [], w_closed = True\<rparr>) []"
    by (simp add: watch_def watch_start_def demo_simps watcher_close_def)
  from watch_Failed_closes [OF run] have "w_closed \<lparr>w_paths = [], w_closed = True\<rparr>"
    by simp
  with run show ?thesis by simp
qed

theorem watch_debug_logs_witness:
  "watch LogPrintln demo_world demo_proc [(0, Event demo_event), (100, WError ''overflow'')] =
     Looping (demo_start\<lparr>doit := Some 500,
       logs := [LogReloader ''/tmp/app'', LogEvent demo_event, LogError ''overflow'']\<rparr>) \<and>
   logs (demo_start\<lparr>doit := Some 500,
       logs := [LogReloader ''/tmp/app'', LogEvent demo_event, LogError ''overflow'']\<rparr>) =
     LogReloader ''/tmp/app'' # diag_lines [(0, Event demo_event), (100, WError ''overflow'')]"
proof -
  have run: "watch LogPrintln demo_world demo_proc [(0, Event demo_event), (100, WError ''overflow'')] =
     Looping (demo_start\<lparr>doit := Some 500,
       logs := [LogReloader ''/tmp/app'', LogEvent demo_event, LogError ''overflow'']\<rparr>)"
    by (simp add: watch_def demo_watch_start) (simp add: loop_simps demo_simps Let_def)
  from watch_debug_logs [OF run] run show ?thesis by (simp add: demo_start_def)
qed

theorem watch_rewatches_witness:
  "watch Noop demo_world demo_proc [(0, Event demo_remove)] = Looping (demo_start\<lparr>doit := Some 500\<rparr>) \<and>
   set (w_paths (wt (demo_start\<lparr>doit := Some 500\<rparr>))) =
     insert (argv0 (demo_start\<lparr>doit := Some 500\<rparr>)) (set (event_names [(0, Event demo_remove)]))"
proof -
  have run: "watch Noop demo_world demo_proc [(0, Event demo_remove)] = Looping (demo_start\<lparr>doit := Some 500\<rparr>)"
    by (simp add: watch_def demo_watch_start) (simp add: loop_simps demo_simps demo_remove_def Let_def)
  from run watch_rewatches [OF run] show ?thesis by simp
qed

theorem error_isolation_witness:
  "strip_ret (loop_run Noop demo_world demo_proc demo_start
      ([(0, Event demo_event)] @ (100, WError ''overflow'') # [(600, Fire)])) =
   strip_ret (loop_run Noop demo_world demo_proc demo_start ([(0, Event demo_event)] @ [(600, Fire)])) \<and>
   strip_ret (loop_run Noop demo_world demo_proc demo_start ([(0, Event demo_event)] @ [(600, Fire)])) =
     Execd demo_req []"
proof -
  have eq: "strip_ret (loop_run Noop demo_world demo_proc demo_start
      ([(0, Event demo_event)] @ (100, WError ''overflow'') # [(600, Fire)])) =
    strip_ret (loop_run Noop demo_world demo_proc demo_start ([(0, Event demo_event)] @ [(600, Fire)]))"
    by (rule error_isolation)
  have ev: "strip_ret (loop_run Noop demo_world demo_proc demo_start
      ([(0, Event demo_event)] @ [(600, Fire)])) = Execd demo_req []"
    by (simp add: loop_simps demo_simps Let_def)
  from eq ev show ?thesis by (rule conjI)
qed

end
