(* ===== verification/Debounce.thy ===== *)
theory Debounce
  imports Watch
begin

text \<open>
  The debounce of the watch loop (src/devrestarter.go lines 47--60: the channel
  \<open>doit\<close>, replaced by \<open>time.After(500 * time.Millisecond)\<close> on every event).
  The abstract specification \<open>restart_at\<close> says when a burst of change events
  should trigger the restart: 500 ms after the first event that is followed by 500 ms
  without events, if that point lies within the observed horizon.  The environment's
  side is \<open>prompt_sched\<close>: the file events and backend errors arrive at their
  times, and the timer of the loop's own \<open>doit\<close> is delivered as soon as it is
  due, before any later input (an input at exactly the deadline goes first).
  \<open>debounce_restart\<close> proves that this schedule is admissible for the loop and
  that the loop restarts exactly when and only if the specification says;
  \<open>restart_after_quiet\<close> proves for every admissible schedule, however the
  select chooses, that no restart comes less than 500 ms after a change.
\<close>

fun event_times :: "(time_ms \<times> sel) list \<Rightarrow> time_ms list" where
  "event_times [] = []"
| "event_times ((t, Event e) # cs) = t # event_times cs"
| "event_times (_ # cs) = event_times cs"

definition fs_input :: "(time_ms \<times> sel) list \<Rightarrow> bool" where
  "fs_input xs \<longleftrightarrow> (\<forall>x \<in> set xs. snd x \<noteq> Fire)"

definition quiet :: "time_ms list \<Rightarrow> time_ms \<Rightarrow> bool" where
  "quiet ts t \<longleftrightarrow> (\<forall>u \<in> set ts. u \<le> t \<or> t + debounce_ms < u)"

definition restart_at :: "time_ms list \<Rightarrow> time_ms \<Rightarrow> time_ms option" where
  "restart_at ts h =
     (case find (quiet ts) ts of
        None \<Rightarrow> None
      | Some t \<Rightarrow> if t + debounce_ms \<le> h then Some (t + debounce_ms) else None)"

fun prompt_sched ::
  "debug_fn \<Rightarrow> world \<Rightarrow> proc \<Rightarrow> wstate \<Rightarrow> (time_ms \<times> sel) list \<Rightarrow> time_ms \<Rightarrow> (time_ms \<times> sel) list" where
  "prompt_sched dbg w p s [] h =
     (case doit s of None \<Rightarrow> [] | Some d \<Rightarrow> if d \<le> h then [(d, Fire)] else [])"
| "prompt_sched dbg w p s ((t, c) # cs) h =
     (let rest = (t, c) # (case loop_step dbg w p t s c of
                             Cont s' \<Rightarrow> prompt_sched dbg w p s' cs h
                           | Exit r \<Rightarrow> [])
      in case doit s of None \<Rightarrow> rest | Some d \<Rightarrow> if d < t then [(d, Fire)] else rest)"

fun fire_time :: "(time_ms \<times> sel) list \<Rightarrow> time_ms option" where
  "fire_time [] = None"
| "fire_time ((t, Fire) # cs) = Some t"
| "fire_time ((t, Event e) # cs) = fire_time cs"
| "fire_time ((t, WError m) # cs) = fire_time cs"

definition demo_burst :: "(time_ms \<times> sel) list" where
  "demo_burst = [(0, Event demo_event), (100, Event demo_event), (200, Event demo_event),
                 (600, Event demo_event)]"

subsection \<open>The specification\<close>

lemma quiet_Cons_le: "t0 \<le> x \<Longrightarrow> quiet (t0 # ts) x = quiet ts x"
  by (auto simp: quiet_def)

lemma restart_at_single: "restart_at [t] h = (if t + debounce_ms \<le> h then Some (t + debounce_ms) else None)"
  by (simp add: restart_at_def quiet_def)

lemma restart_at_quiet_head:
  "quiet (t0 # ts) t0 \<Longrightarrow> restart_at (t0 # ts) h =
     (if t0 + debounce_ms \<le> h then Some (t0 + debounce_ms) else None)"
  by (simp add: restart_at_def)

lemma restart_at_absorb:
  assumes le: "t0 \<le> t" "t \<le> t0 + debounce_ms" and sorted: "sorted (t # ts)"
  shows "restart_at (t0 # t # ts) h = restart_at (t # ts) h"
proof (cases "quiet (t0 # t # ts) t0")
  case True
  with le have "t = t0" by (auto simp: quiet_def)
  moreover from True \<open>t = t0\<close> have "quiet (t # ts) t"
    by (auto simp: quiet_def)
  ultimately show ?thesis using True by (simp add: restart_at_def)
next
  case False
  have "\<forall>x \<in> set (t # ts). quiet (t0 # t # ts) x = quiet (t # ts) x"
    using le sorted by (auto intro!: quiet_Cons_le)
  then have "find (quiet (t0 # t # ts)) (t # ts) = find (quiet (t # ts)) (t # ts)"
    by (intro find_cong) auto
  with False show ?thesis by (simp add: restart_at_def)
qed

lemma restart_at_fire_before:
  assumes "t0 + debounce_ms < t" "\<forall>u \<in> set ts. t \<le> u"
  shows "quiet (t0 # ts) t0"
  using assms by (auto simp: quiet_def)

lemma event_times_subset: "u \<in> set (event_times xs) \<Longrightarrow> u \<in> fst ` set xs"
  by (induction xs rule: event_times.induct) auto

lemma sorted_event_times: "sorted (map fst xs) \<Longrightarrow> sorted (event_times xs)"
  by (induction xs rule: event_times.induct) (auto dest: event_times_subset)

lemma sorted_Cons_event_times:
  "sorted (t # map fst xs) \<Longrightarrow> sorted (t # event_times xs)"
  by (auto simp: sorted_event_times dest: event_times_subset)

lemma event_names_Cons_sub:
  "n \<in> set (event_names xs) \<Longrightarrow> n \<in> set (event_names (x # xs))"
proof -
  assume n: "n \<in> set (event_names xs)"
  obtain t c where "x = (t, c)" by fastforce
  with n show ?thesis by (cases c) auto
qed

lemma event_step_Cont:
  "\<not> w_closed (wt s) \<Longrightarrow> add_ok w (ev_name e) \<Longrightarrow>
     \<exists>s'. loop_step dbg w p t s (Event e) = Cont s' \<and> argv0 s' = argv0 s \<and>
          \<not> w_closed (wt s') \<and> doit s' = Some (t + debounce_ms)"
  by (simp add: on_event_Cont)

lemma error_step_Cont:
  "loop_step dbg w p t s (WError m) = Cont s' \<longleftrightarrow>
     s' = s\<lparr>logs := debug dbg (LogError m) (logs s)\<rparr>"
  by (auto simp: loop_simps)

lemma prompt_sched_pending:
  "doit s = Some (t0 + debounce_ms) \<Longrightarrow> \<not> w_closed (wt s) \<Longrightarrow>
   sorted (t0 # map fst xs) \<Longrightarrow> fs_input xs \<Longrightarrow> \<forall>x \<in> set xs. fst x \<le> h \<Longrightarrow>
   \<forall>n \<in> set (event_names xs). add_ok w n \<Longrightarrow>
     fire_time (prompt_sched dbg w p s xs h) = restart_at (t0 # event_times xs) h"
proof (induction xs arbitrary: s t0)
  case Nil
  then show ?case by (simp add: restart_at_single)
next
  case (Cons x xs)
  obtain t c where x: "x = (t, c)" by fastforce
  from Cons.prems x have st: "sorted (t # map fst xs)" and t0t: "t0 \<le> t" and th: "t \<le> h"
    by auto
  from Cons.prems x have rest: "sorted (t0 # map fst xs)" "fs_input xs" "\<forall>x \<in> set xs. fst x \<le> h"
    by (auto simp: fs_input_def)
  have ge: "\<forall>u \<in> set (event_times xs). t \<le> u"
    using st by (auto dest: event_times_subset)
  show ?case
  proof (cases "t0 + debounce_ms < t")
    case True
    have "quiet (t0 # event_times (x # xs)) t0"
      using True ge x by (cases c) (auto intro!: restart_at_fire_before)
    with True th x Cons.prems(1) show ?thesis by (simp add: restart_at_quiet_head)
  next
    case False
    show ?thesis
    proof (cases c)
      case Fire
      with Cons.prems x show ?thesis by (simp add: fs_input_def)
    next
      case (WError m)
      let ?s' = "s\<lparr>logs := debug dbg (LogError m) (logs s)\<rparr>"
      have "fire_time (prompt_sched dbg w p ?s' xs h) = restart_at (t0 # event_times xs) h"
        using Cons.prems(1,2,6) rest x WError by (intro Cons.IH) auto
      with False WError x Cons.prems(1) show ?thesis by (simp add: loop_simps)
    next
      case (Event e)
      with Cons.prems(2,6) x obtain s' where s': "loop_step dbg w p t s (Event e) = Cont s'"
        "\<not> w_closed (wt s')" "doit s' = Some (t + debounce_ms)"
        using event_step_Cont by fastforce
      have "fire_time (prompt_sched dbg w p s' xs h) = restart_at (t # event_times xs) h"
        using s'(2,3) st rest(2,3) Cons.prems(6) x Event by (intro Cons.IH) auto
      moreover have "restart_at (t0 # t # event_times xs) h = restart_at (t # event_times xs) h"
        using t0t False sorted_Cons_event_times [OF st] by (intro restart_at_absorb) auto
      ultimately show ?thesis using False Event x s'(1) Cons.prems(1) by (simp del: loop_step.simps)
    qed
  qed
qed

lemma prompt_sched_idle:
  "doit s = None \<Longrightarrow> \<not> w_closed (wt s) \<Longrightarrow> sorted (map fst xs) \<Longrightarrow> fs_input xs \<Longrightarrow>
   \<forall>x \<in> set xs. fst x \<le> h \<Longrightarrow> \<forall>n \<in> set (event_names xs). add_ok w n \<Longrightarrow>
     fire_time (prompt_sched dbg w p s xs h) = restart_at (event_times xs) h"
proof (induction xs arbitrary: s)
  case Nil
  then show ?case by (simp add: restart_at_def)
next
  case (Cons x xs)
  obtain t c where x: "x = (t, c)" by fastforce
  from Cons.prems x have rest: "sorted (map fst xs)" "fs_input xs" "\<forall>x \<in> set xs. fst x \<le> h"
    by (auto simp: fs_input_def)
  show ?case
  proof (cases c)
    case Fire
    with Cons.prems x show ?thesis by (simp add: fs_input_def)
  next
    case (WError m)
    let ?s' = "s\<lparr>logs := debug dbg (LogError m) (logs s)\<rparr>"
    have "fire_time (prompt_sched dbg w p ?s' xs h) = restart_at (event_times xs) h"
      using Cons.prems(1,2,6) rest x WError by (intro Cons.IH) auto
    with WError x Cons.prems(1) show ?thesis by (simp add: loop_simps)
  next
    case (Event e)
    with Cons.prems(2,6) x obtain s' where s': "loop_step dbg w p t s (Event e) = Cont s'"
      "\<not> w_closed (wt s')" "doit s' = Some (t + debounce_ms)"
      using event_step_Cont by fastforce
    from Cons.prems x have "sorted (t # map fst xs)" by simp
    then have "fire_time (prompt_sched dbg w p s' xs h) = restart_at (t # event_times xs) h"
      using s'(2,3) rest(2,3) Cons.prems(6) x Event by (intro prompt_sched_pending) auto
    with Event x s'(1) Cons.prems(1) show ?thesis by (simp del: loop_step.simps)
  qed
qed

lemma fire_sched:
  "doit s = Some d \<Longrightarrow> t0 \<le> d \<Longrightarrow> exec_ok w (argv0 s) \<Longrightarrow>
     sched_ok dbg w p t0 s [(d, Fire)] \<and>
     loop_run dbg w p s [(d, Fire)] =
       Execd \<lparr>exec_path = argv0 s, exec_argv = args p, exec_envv = environ p\<rparr>
         (logs s @ [LogRestarting (argv0 s)])"
  by (simp add: loop_simps Let_def)

lemma fs_step_cont:
  assumes "c \<noteq> Fire" "\<not> w_closed (wt s)" "\<forall>e. c = Event e \<longrightarrow> add_ok w (ev_name e)"
    "\<forall>d. doit s = Some d \<longrightarrow> t \<le> d"
  shows "\<exists>s'. loop_step dbg w p t s c = Cont s' \<and> argv0 s' = argv0 s \<and> \<not> w_closed (wt s') \<and>
           (\<forall>d. doit s' = Some d \<longrightarrow> t \<le> d)"
proof (cases c)
  case Fire
  with assms(1) show ?thesis by simp
next
  case (Event e)
  with assms(2,3,4) event_step_Cont [of s w e dbg p t] show ?thesis by fastforce
next
  case (WError m)
  with assms(2,4) show ?thesis by (simp add: loop_simps)
qed

lemma prompt_sched_run:
  "(\<forall>d. doit s = Some d \<longrightarrow> t0 \<le> d) \<Longrightarrow> \<not> w_closed (wt s) \<Longrightarrow> sorted (t0 # map fst xs) \<Longrightarrow>
   fs_input xs \<Longrightarrow> \<forall>n \<in> set (event_names xs). add_ok w n \<Longrightarrow> exec_ok w (argv0 s) \<Longrightarrow>
   sched_ok dbg w p t0 s (prompt_sched dbg w p s xs h) \<and>
   (fire_time (prompt_sched dbg w p s xs h) = None \<longrightarrow>
      (\<exists>s'. loop_run dbg w p s (prompt_sched dbg w p s xs h) = Looping s')) \<and>
   (fire_time (prompt_sched dbg w p s xs h) \<noteq> None \<longrightarrow>
      (\<exists>l. loop_run dbg w p s (prompt_sched dbg w p s xs h) =
             Execd \<lparr>exec_path = argv0 s, exec_argv = args p, exec_envv = environ p\<rparr> l))"
proof (induction xs arbitrary: s t0)
  case Nil
  then show ?case by (cases "doit s") (auto simp: loop_simps Let_def)
next
  case (Cons x xs)
  obtain t c where x: "x = (t, c)" by fastforce
  show ?case
  proof (cases "\<exists>d. doit s = Some d \<and> d < t")
    case True
    then obtain d where d: "doit s = Some d" "d < t" by blast
    with Cons.prems(1) have "t0 \<le> d" by simp
    with d Cons.prems(6) x show ?thesis
      by (simp add: loop_simps Let_def)
  next
    case False
    from Cons.prems x have c: "c \<noteq> Fire" by (auto simp: fs_input_def)
    have dl: "\<forall>d. doit s = Some d \<longrightarrow> t \<le> d" using False by auto
    have adds: "\<forall>e. c = Event e \<longrightarrow> add_ok w (ev_name e)" using Cons.prems(5) x by auto
    obtain s' where s': "loop_step dbg w p t s c = Cont s'" "argv0 s' = argv0 s"
      "\<not> w_closed (wt s')" "\<forall>d. doit s' = Some d \<longrightarrow> t \<le> d"
      using fs_step_cont [OF c Cons.prems(2) adds dl] by blast
    have ih: "sched_ok dbg w p t s' (prompt_sched dbg w p s' xs h) \<and>
      (fire_time (prompt_sched dbg w p s' xs h) = None \<longrightarrow>
        (\<exists>s''. loop_run dbg w p s' (prompt_sched dbg w p s' xs h) = Looping s'')) \<and>
      (fire_time (prompt_sched dbg w p s' xs h) \<noteq> None \<longrightarrow>
        (\<exists>l. loop_run dbg w p s' (prompt_sched dbg w p s' xs h) =
           Execd \<lparr>exec_path = argv0 s', exec_argv = args p, exec_envv = environ p\<rparr> l))"
      using s'(3,4) Cons.prems(3,4,5,6) x s'(2)
      by (intro Cons.IH) (auto simp: fs_input_def intro: event_names_Cons_sub)
    have "prompt_sched dbg w p s (x # xs) h = (t, c) # prompt_sched dbg w p s' xs h"
      using False s'(1) x by (auto simp: Let_def split: option.splits)
    moreover have "fire_time ((t, c) # ys) = fire_time ys" for ys
      using c by (cases c) auto
    moreover have "t0 \<le> t" using Cons.prems(3) x by simp
    moreover have "select_ready t s c" using c by (cases c) auto
    ultimately show ?thesis using ih s'(1,2) by (simp del: loop_step.simps)
  qed
qed

text \<open>C1: debounce refinement.  Let the watcher start normally, let file events and
  backend errors arrive at nondecreasing times within the horizon \<open>h\<close>, every
  re-registration and the exec succeed, and the timer be delivered promptly.  Then this
  schedule is one the select can take, the restart happens at exactly the time the
  specification \<open>restart_at\<close> gives, and the process image is replaced (with the
  resolved path, the arguments and the environment) if and only if the specification
  calls for a restart.\<close>

theorem debounce_restart:
  assumes start: "watch_start dbg w p = Inr s" and inp: "fs_input xs" "sorted (map fst xs)"
    "\<forall>x \<in> set xs. fst x \<le> h" and adds: "\<forall>n \<in> set (event_names xs). add_ok w n"
    and ex: "exec_ok w (argv0 s)"
  shows "sched_ok dbg w p 0 s (prompt_sched dbg w p s xs h) \<and>
         fire_time (prompt_sched dbg w p s xs h) = restart_at (event_times xs) h \<and>
         (restart_at (event_times xs) h \<noteq> None \<longleftrightarrow>
           (\<exists>l. watch dbg w p (prompt_sched dbg w p s xs h) =
                  Execd \<lparr>exec_path = argv0 s, exec_argv = args p, exec_envv = environ p\<rparr> l))"
proof -
  from start have s0: "doit s = None" "\<not> w_closed (wt s)"
    by (auto simp: watch_start_Inr)
  have ft: "fire_time (prompt_sched dbg w p s xs h) = restart_at (event_times xs) h"
    using s0 inp adds by (intro prompt_sched_idle)
  have "sorted (0 # map fst xs)" using inp(2) by simp
  then have run: "sched_ok dbg w p 0 s (prompt_sched dbg w p s xs h) \<and>
   (fire_time (prompt_sched dbg w p s xs h) = None \<longrightarrow>
      (\<exists>s'. loop_run dbg w p s (prompt_sched dbg w p s xs h) = Looping s')) \<and>
   (fire_time (prompt_sched dbg w p s xs h) \<noteq> None \<longrightarrow>
      (\<exists>l. loop_run dbg w p s (prompt_sched dbg w p s xs h) =
             Execd \<lparr>exec_path = argv0 s, exec_argv = args p, exec_envv = environ p\<rparr> l))"
    using s0 inp(1) adds ex by (intro prompt_sched_run) auto
  from start have "watch dbg w p sch = loop_run dbg w p s sch" for sch
    by (simp add: watch_def)
  with run ft show ?thesis by auto
qed

lemma restart_at_burst:
  "ts \<noteq> [] \<Longrightarrow> sorted ts \<Longrightarrow> successively (\<lambda>a b. b \<le> a + debounce_ms) ts \<Longrightarrow>
   last ts + debounce_ms \<le> h \<Longrightarrow> restart_at ts h = Some (last ts + debounce_ms)"
proof (induction ts rule: induct_list012)
  case 1
  then show ?case by simp
next
  case (2 t)
  then show ?case by (simp add: restart_at_single)
next
  case (3 t u ts)
  then have "restart_at (u # ts) h = Some (last (u # ts) + debounce_ms)" by simp
  moreover have "restart_at (t # u # ts) h = restart_at (u # ts) h"
    using "3.prems" by (intro restart_at_absorb) auto
  ultimately show ?case by simp
qed

lemma prompt_sched_fire_count:
  "fs_input xs \<Longrightarrow> length (filter (\<lambda>x. snd x = Fire) (prompt_sched dbg w p s xs h)) =
     (if fire_time (prompt_sched dbg w p s xs h) = None then 0 else 1)"
proof (induction xs arbitrary: s)
  case Nil
  then show ?case by (simp split: option.splits)
next
  case (Cons x xs)
  obtain t c where x: "x = (t, c)" by fastforce
  from Cons.prems x have c: "c \<noteq> Fire" "fs_input xs" by (auto simp: fs_input_def)
  have ft: "fire_time ((t, c) # ys) = fire_time ys" for ys
    using c by (cases c) auto
  show ?case
  proof (cases "loop_step dbg w p t s c")
    case (Cont s')
    with Cons.IH [OF c(2), of s'] c(1) x ft show ?thesis
      by (auto simp: Let_def split: option.splits)
  next
    case (Exit r)
    with c(1) x ft show ?thesis by (auto simp: Let_def split: option.splits)
  qed
qed

text \<open>C4: a burst restarts once.  For change events at \<open>t1 \<le> ... \<le> tn\<close> each at most
  500 ms after the one before, and a horizon reaching \<open>tn + 500\<close>, the promptly
  delivered timer fires exactly once, at \<open>tn + 500\<close>, and the image is replaced then.\<close>

theorem burst_single_restart:
  assumes start: "watch_start dbg w p = Inr s" and inp: "fs_input xs" "sorted (map fst xs)"
    "\<forall>x \<in> set xs. fst x \<le> h" and adds: "\<forall>n \<in> set (event_names xs). add_ok w n"
    and ex: "exec_ok w (argv0 s)"
    and burst: "event_times xs \<noteq> []" "successively (\<lambda>a b. b \<le> a + debounce_ms) (event_times xs)"
    "last (event_times xs) + debounce_ms \<le> h"
  shows "fire_time (prompt_sched dbg w p s xs h) = Some (last (event_times xs) + debounce_ms) \<and>
         length (filter (\<lambda>x. snd x = Fire) (prompt_sched dbg w p s xs h)) = 1 \<and>
         (\<exists>l. watch dbg w p (prompt_sched dbg w p s xs h) =
                Execd \<lparr>exec_path = argv0 s, exec_argv = args p, exec_envv = environ p\<rparr> l)"
proof -
  from start have s0: "doit s = None" "\<not> w_closed (wt s)"
    by (auto simp: watch_start_Inr)
  have "fire_time (prompt_sched dbg w p s xs h) = restart_at (event_times xs) h"
    using s0 inp adds by (intro prompt_sched_idle)
  also have "\<dots> = Some (last (event_times xs) + debounce_ms)"
    using burst inp(2) by (intro restart_at_burst) (auto simp: sorted_event_times)
  finally have ft: "fire_time (prompt_sched dbg w p s xs h) = Some (last (event_times xs) + debounce_ms)" .
  have "sorted (0 # map fst xs)" using inp(2) by simp
  then have "fire_time (prompt_sched dbg w p s xs h) \<noteq> None \<longrightarrow>
      (\<exists>l. loop_run dbg w p s (prompt_sched dbg w p s xs h) =
             Execd \<lparr>exec_path = argv0 s, exec_argv = args p, exec_envv = environ p\<rparr> l)"
    using s0 inp(1) adds ex prompt_sched_run [of s 0 xs w dbg p h] by auto
  with ft start show ?thesis
    by (simp add: watch_def prompt_sched_fire_count [OF inp(1)])
qed

subsection \<open>Every admissible schedule waits for quiet\<close>

lemma loop_step_doit:
  "loop_step dbg w p t s c = Cont s' \<Longrightarrow>
     doit s' = (case c of Event e \<Rightarrow> Some (t + debounce_ms) | _ \<Rightarrow> doit s)"
  by (cases c) (auto simp: on_event_Cont on_fire_def on_error_def Let_def split: if_splits)

lemma loop_run_doit:
  "loop_run dbg w p s xs = Looping s' \<Longrightarrow>
     doit s' = (if event_times xs = [] then doit s else Some (last (event_times xs) + debounce_ms))"
proof (induction xs arbitrary: s)
  case Nil
  then show ?case by simp
next
  case (Cons x xs)
  obtain t c where x: "x = (t, c)" by fastforce
  from Cons.prems x obtain s1 where s1: "loop_step dbg w p t s c = Cont s1"
    by (cases "loop_step dbg w p t s c") (auto simp: Let_def)
  with Cons.prems x have "doit s' = (if event_times xs = [] then doit s1
      else Some (last (event_times xs) + debounce_ms))"
    by (simp add: Cons.IH)
  with loop_step_doit [OF s1] x show ?case by (cases c) auto
qed

lemma sched_ok_sorted: "sched_ok dbg w p t0 s xs \<Longrightarrow> sorted (t0 # map fst xs)"
proof (induction xs arbitrary: t0 s)
  case Nil
  then show ?case by simp
next
  case (Cons x xs)
  obtain t c where x: "x = (t, c)" by fastforce
  show ?case
  proof (cases "loop_step dbg w p t s c")
    case (Cont s')
    with Cons.prems x have t0t: "t0 \<le> t" and ok: "sched_ok dbg w p t s' xs" by auto
    from ok have "sorted (t # map fst xs)" by (rule Cons.IH)
    with t0t x show ?thesis by auto
  next
    case (Exit r)
    with Cons.prems x show ?thesis by auto
  qed
qed

lemma sched_ok_prefix:
  "sched_ok dbg w p t0 s (xs @ y # ys) \<Longrightarrow>
     \<exists>s'. loop_run dbg w p s xs = Looping s' \<and> sched_ok dbg w p (last (t0 # map fst xs)) s' (y # ys)"
proof (induction xs arbitrary: t0 s)
  case Nil
  then show ?case by simp
next
  case (Cons x xs)
  obtain t c where x: "x = (t, c)" by fastforce
  from Cons.prems x obtain s1 where s1: "loop_step dbg w p t s c = Cont s1"
    by (cases "loop_step dbg w p t s c") auto
  with Cons.prems x have "sched_ok dbg w p t s1 (xs @ y # ys)" by simp
  then obtain s' where "loop_run dbg w p s1 xs = Looping s'"
    "sched_ok dbg w p (last (t # map fst xs)) s' (y # ys)"
    using Cons.IH by blast
  with s1 x show ?case by auto
qed

text \<open>C2: no restart before a quiet period.  In every admissible run of the loop that
  starts with no pending timer, whatever the select chooses and however late the timer is
  delivered, a restart happens only after at least one change event, and at least 500 ms
  after every change event that preceded it.\<close>

theorem restart_after_quiet:
  assumes ok: "sched_ok dbg w p t0 s (xs @ (tf, Fire) # ys)" and idle: "doit s = None"
  shows "event_times xs \<noteq> [] \<and> (\<forall>t \<in> set (event_times xs). t + debounce_ms \<le> tf)"
proof -
  from sched_ok_prefix [OF ok] obtain s' where run: "loop_run dbg w p s xs = Looping s'"
    and rest: "sched_ok dbg w p (last (t0 # map fst xs)) s' ((tf, Fire) # ys)"
    by blast
  from rest obtain d where d: "doit s' = Some d" "d \<le> tf"
    by (auto split: option.splits)
  from loop_run_doit [OF run] idle d have ne: "event_times xs \<noteq> []"
    and dl: "d = last (event_times xs) + debounce_ms"
    by (auto split: if_splits)
  from sched_ok_sorted [OF ok] have "sorted (map fst xs)" by (simp add: sorted_append)
  then have "sorted (event_times xs)" by (rule sorted_event_times)
  then have "\<forall>t \<in> set (event_times xs). t \<le> last (event_times xs)"
    by (auto intro: sorted_le_last)
  with ne dl d show ?thesis by auto
qed

subsection \<open>Witnesses\<close>

text \<open>The spec's scenario: events at 0, 100, 200 and 600 ms coalesce into one restart at
  1100 ms.\<close>

theorem debounce_restart_witness:
  "sched_ok Noop demo_world demo_proc 0 demo_start
     (prompt_sched Noop demo_world demo_proc demo_start demo_burst 2000) \<and>
   fire_time (prompt_sched Noop demo_world demo_proc demo_start demo_burst 2000) = Some 1100 \<and>
   restart_at (event_times demo_burst) 2000 = Some 1100"
proof -
  have st: "watch_start Noop demo_world demo_proc = Inr demo_start"
    by (simp add: demo_watch_start demo_start_def)
  have spec: "restart_at (event_times demo_burst) 2000 = Some 1100"
    by (simp add: demo_burst_def restart_at_def quiet_def debounce_ms_def)
  have "sched_ok Noop demo_world demo_proc 0 demo_start
          (prompt_sched Noop demo_world demo_proc demo_start demo_burst 2000) \<and>
        fire_time (prompt_sched Noop demo_world demo_proc demo_start demo_burst 2000) =
          restart_at (event_times demo_burst) 2000"
    using debounce_restart [OF st, of demo_burst 2000]
    by (simp add: demo_burst_def fs_input_def demo_simps)
  with spec show ?thesis by simp
qed

theorem burst_single_restart_witness:
  "fire_time (prompt_sched Noop demo_world demo_proc demo_start demo_burst 2000) = Some 1100 \<and>
   (\<exists>l. watch Noop demo_world demo_proc
          (prompt_sched Noop demo_world demo_proc demo_start demo_burst 2000) = Execd demo_req l)"
proof -
  have st: "watch_start Noop demo_world demo_proc = Inr demo_start"
    by (simp add: demo_watch_start demo_start_def)
  show ?thesis
    using burst_single_restart [OF st, of demo_burst 2000]
    by (simp add: demo_burst_def fs_input_def demo_simps)
qed

theorem restart_after_quiet_witness:
  "sched_ok Noop demo_world demo_proc 0 demo_start [(0, Event demo_event), (700, Fire)] \<and>
   event_times [(0, Event demo_event)] = [0] \<and> (0::nat) + debounce_ms \<le> 700"
proof -
  have ok: "sched_ok Noop demo_world demo_proc 0 demo_start ([(0, Event demo_event)] @ [(700, Fire)])"
    by (simp add: loop_simps demo_simps Let_def)
  from restart_after_quiet [OF ok] have "(0::nat) + debounce_ms \<le> 700"
    by (simp add: demo_start_def)
  with ok show ?thesis by simp
qed

end
