(* ===== verification/Restarts.thy ===== *)
theory Restarts
  imports Debounce
begin

text \<open>
  The process across restarts.  A successful \<open>syscall.Exec\<close> (src/devrestarter.go,
  line 52) replaces the process image; the rebuilt binary links the package again, so
  its \<open>init()\<close> re-reads \<open>RELOADER_DEBUG\<close> and its \<open>Init()\<close> starts a fresh
  \<open>watch\<close> with the \<open>os.Args\<close> and \<open>os.Environ()\<close> that the exec passed
  (\<open>proc_of\<close>).  \<open>system_run\<close> chains such images over one stream of file
  events, each image run under the prompt delivery of its own timer
  (\<open>Debounce.prompt_sched\<close>) and handed the events after its restart; it returns the
  restart times.  A failing image ends the chain (its goroutine panics), as does an image
  still waiting at the horizon.  The fuel bounds the number of images; one more image than
  input events is always enough.  \<open>covered\<close> says that in a burst every event comes
  before the deadline the previous one armed, so that the burst is one debounce window.
  \<open>restarts\<close> is the specification across images: the first restart time that
  \<open>Debounce.restart_at\<close> gives, then the restarts of the events after it.  The lemmas
  split a prompt schedule at its restart (\<open>prompt_sched_fire_split\<close>), show that an
  image consumes a whole burst and execs (\<open>image_restart\<close>), and prove the chain
  of images equal to the specification (C16), two bursts in particular (C14), and its
  termination with at most one restart per file event (C15, through
  \<open>prompt_sched_fire_prefix\<close>: an image restarts only after a file event).
\<close>

fun covered :: "time_ms option \<Rightarrow> (time_ms \<times> sel) list \<Rightarrow> bool" where
  "covered dl [] = True"
| "covered dl ((t, c) # cs) =
     ((case dl of None \<Rightarrow> True | Some d \<Rightarrow> t \<le> d) \<and>
      covered (case c of Event e \<Rightarrow> Some (t + debounce_ms) | _ \<Rightarrow> dl) cs)"

definition proc_of :: "exec_req \<Rightarrow> proc" where
  "proc_of r = \<lparr>args = exec_argv r, environ = exec_envv r\<rparr>"

fun system_run :: "nat \<Rightarrow> world \<Rightarrow> proc \<Rightarrow> (time_ms \<times> sel) list \<Rightarrow> time_ms \<Rightarrow> time_ms list option" where
  "system_run 0 w p xs h = None"
| "system_run (Suc n) w p xs h =
     (let dbg = init_debug (environ p) in
      case watch_start dbg w p of
        Inl r \<Rightarrow> Some []
      | Inr s \<Rightarrow>
          (let sch = prompt_sched dbg w p s xs h in
           case (fire_time sch, loop_run dbg w p s sch) of
             (Some tf, Execd r l) \<Rightarrow>
               map_option (Cons tf) (system_run n w (proc_of r) (drop (length sch - 1) xs) h)
           | _ \<Rightarrow> Some []))"

function restarts :: "time_ms list \<Rightarrow> time_ms \<Rightarrow> time_ms list" where
  "restarts ts h =
     (case restart_at ts h of
        None \<Rightarrow> []
      | Some r \<Rightarrow> r # restarts (filter (\<lambda>u. r < u) ts) h)"
  by pat_completeness auto
termination
proof (relation "measure (\<lambda>(ts, h). length ts)")
  fix ts h r
  assume "restart_at ts h = Some r"
  then have "\<exists>t \<in> set ts. r = t + debounce_ms"
    by (auto simp: restart_at_def find_Some_iff split: option.splits if_splits)
  then obtain t where "t \<in> set ts" "r = t + debounce_ms" by blast
  then have "length (filter (\<lambda>u. r < u) ts) < length ts"
    by (intro length_filter_less) (auto simp: debounce_ms_def)
  then show "((filter (\<lambda>u. r < u) ts, h), ts, h) \<in> measure (\<lambda>(ts, h). length ts)" by simp
qed auto

definition demo_first :: "(time_ms \<times> sel) list" where
  "demo_first = [(0, Event demo_event), (100, Event demo_event)]"

definition demo_second :: "(time_ms \<times> sel) list" where
  "demo_second = [(1000, Event demo_event)]"

declare restarts.simps [simp del]

lemma restarts_None: "restart_at ts h = None \<Longrightarrow> restarts ts h = []"
  by (simp add: restarts.simps)

lemma restarts_Some: "restart_at ts h = Some r \<Longrightarrow> restarts ts h = r # restarts (filter (\<lambda>u. r < u) ts) h"
  by (simp add: restarts.simps)

lemma event_times_append [simp]: "event_times (xs @ ys) = event_times xs @ event_times ys"
  by (induction xs rule: event_times.induct) auto

lemma prompt_sched_fire_split:
  "fs_input xs \<Longrightarrow> sorted (map fst xs) \<Longrightarrow> fire_time (prompt_sched dbg w p s xs h) = Some r \<Longrightarrow>
   \<exists>b ys. xs = b @ ys \<and> prompt_sched dbg w p s xs h = b @ [(r, Fire)] \<and>
     (\<forall>x \<in> set b. fst x \<le> r) \<and> (\<forall>y \<in> set ys. r < fst y) \<and> (b = [] \<longrightarrow> doit s = Some r)"
proof (induction xs arbitrary: s)
  case Nil
  then show ?case by (auto split: option.splits if_splits)
next
  case (Cons x cs)
  obtain t c where x: "x = (t, c)" by fastforce
  from Cons.prems x have c: "c \<noteq> Fire" by (auto simp: fs_input_def)
  have ft: "fire_time ((t, c) # ys) = fire_time ys" for ys using c by (cases c) auto
  from Cons.prems(2) x have srt: "sorted (map fst cs)" "\<forall>y \<in> set cs. t \<le> fst y" by auto
  show ?case
  proof (cases "\<exists>d. doit s = Some d \<and> d < t")
    case True
    then obtain d where d: "doit s = Some d" "d < t" by blast
    with Cons.prems(3) x have "r = d" by (simp add: Let_def)
    with d x srt(2) show ?thesis by (intro exI [of _ "[]"] exI [of _ "x # cs"]) (auto simp: Let_def)
  next
    case False
    then have ps: "prompt_sched dbg w p s (x # cs) h = (t, c) # (case loop_step dbg w p t s c of
        Cont s' \<Rightarrow> prompt_sched dbg w p s' cs h | Exit r \<Rightarrow> [])"
      using x by (auto simp: Let_def split: option.splits simp del: loop_step.simps)
    show ?thesis
    proof (cases "loop_step dbg w p t s c")
      case (Exit r')
      with Cons.prems(3) ps ft show ?thesis by simp
    next
      case (Cont s')
      with Cons.prems(3) ps ft have "fire_time (prompt_sched dbg w p s' cs h) = Some r" by simp
      with Cons.prems(1) srt(1) obtain b ys where ih: "cs = b @ ys"
        "prompt_sched dbg w p s' cs h = b @ [(r, Fire)]" "\<forall>x \<in> set b. fst x \<le> r"
        "\<forall>y \<in> set ys. r < fst y" "b = [] \<longrightarrow> doit s' = Some r"
        using Cons.IH [of s'] by (auto simp: fs_input_def)
      have "t \<le> r"
      proof (cases b)
        case Nil
        with ih(5) have "doit s' = Some r" by simp
        with loop_step_doit [OF Cont] False c show ?thesis
          by (cases c) (auto simp: not_less eq_commute [of "Some r"])
      next
        case (Cons y b')
        with ih(1,3) srt(2) show ?thesis by force
      qed
      with ih ps Cont x show ?thesis by (intro exI [of _ "x # b"] exI [of _ ys]) auto
    qed
  qed
qed

lemma event_names_append [simp]: "event_names (xs @ ys) = event_names xs @ event_names ys"
  by (induction xs rule: event_names.induct) auto

lemma event_times_split_filter:
  assumes "\<forall>x \<in> set b. fst x \<le> r" "\<forall>y \<in> set ys. r < fst y"
  shows "event_times ys = filter (\<lambda>u. r < u) (event_times (b @ ys))"
proof -
  have "filter (\<lambda>u. r < u) (event_times b) = []"
    using assms(1) by (auto simp: filter_empty_conv dest!: event_times_subset)
  moreover have "filter (\<lambda>u. r < u) (event_times ys) = event_times ys"
    using assms(2) by (auto simp: filter_id_conv dest!: event_times_subset)
  ultimately show ?thesis by simp
qed

lemma prompt_sched_Cons_Cont:
  "loop_step dbg w p t s c = Cont s' \<Longrightarrow> \<forall>d. doit s = Some d \<longrightarrow> t \<le> d \<Longrightarrow>
     prompt_sched dbg w p s ((t, c) # cs) h = (t, c) # prompt_sched dbg w p s' cs h"
  by (auto simp: Let_def split: option.splits)

lemma prompt_sched_covered:
  "covered (doit s) b \<Longrightarrow> \<not> w_closed (wt s) \<Longrightarrow> fs_input b \<Longrightarrow>
   \<forall>n \<in> set (event_names b). add_ok w n \<Longrightarrow>
   \<exists>s'. loop_run dbg w p s b = Looping s' \<and> \<not> w_closed (wt s') \<and> argv0 s' = argv0 s \<and>
        prompt_sched dbg w p s (b @ ys) h = b @ prompt_sched dbg w p s' ys h"
proof (induction b arbitrary: s)
  case Nil
  then show ?case by simp
next
  case (Cons x b)
  obtain t c where x: "x = (t, c)" by fastforce
  from Cons.prems(1) x have dl: "\<forall>d. doit s = Some d \<longrightarrow> t \<le> d"
    by (auto split: option.splits)
  from Cons.prems(3) x have c: "c \<noteq> Fire" "fs_input b" by (auto simp: fs_input_def)
  have adds: "\<forall>e. c = Event e \<longrightarrow> add_ok w (ev_name e)" using Cons.prems(4) x by auto
  obtain s1 where s1: "loop_step dbg w p t s c = Cont s1" "argv0 s1 = argv0 s"
    "\<not> w_closed (wt s1)"
    using fs_step_cont [OF c(1) Cons.prems(2) adds dl] by blast
  have "doit s1 = (case c of Event e \<Rightarrow> Some (t + debounce_ms) | _ \<Rightarrow> doit s)"
    by (rule loop_step_doit [OF s1(1)])
  with Cons.prems(1) x have cov: "covered (doit s1) b" by simp
  have "\<forall>n \<in> set (event_names b). add_ok w n"
    using Cons.prems(4) by (auto intro: event_names_Cons_sub)
  with Cons.IH [OF cov s1(3) c(2)] obtain s' where
    "loop_run dbg w p s1 b = Looping s'" "\<not> w_closed (wt s')" "argv0 s' = argv0 s1"
    "prompt_sched dbg w p s1 (b @ ys) h = b @ prompt_sched dbg w p s' ys h"
    by blast
  moreover have "prompt_sched dbg w p s ((t, c) # b @ ys) h = (t, c) # prompt_sched dbg w p s1 (b @ ys) h"
    by (rule prompt_sched_Cons_Cont [OF s1(1) dl])
  ultimately show ?case using s1 x by (intro exI [of _ s']) simp
qed

lemma fire_time_fs_append: "fs_input b \<Longrightarrow> fire_time (b @ ys) = fire_time ys"
proof (induction b)
  case Nil
  then show ?case by simp
next
  case (Cons x b)
  obtain t c where x: "x = (t, c)" by fastforce
  with Cons show ?case by (cases c) (auto simp: fs_input_def)
qed

lemma proc_of_self: "proc_of \<lparr>exec_path = a, exec_argv = args p, exec_envv = environ p\<rparr> = p"
  by (cases p) (simp add: proc_of_def)

lemma image_restart:
  assumes start: "watch_start dbg w p = Inr s" and cov: "covered None b" and inp: "fs_input b"
    and adds: "\<forall>n \<in> set (event_names b). add_ok w n" and ev: "event_times b \<noteq> []"
    and ex: "exec_ok w (argv0 s)"
    and nxt: "case ys of [] \<Rightarrow> last (event_times b) + debounce_ms \<le> h
                | (t, c) # _ \<Rightarrow> last (event_times b) + debounce_ms < t"
  shows "prompt_sched dbg w p s (b @ ys) h = b @ [(last (event_times b) + debounce_ms, Fire)] \<and>
         (\<exists>l. loop_run dbg w p s (b @ [(last (event_times b) + debounce_ms, Fire)]) =
                Execd \<lparr>exec_path = argv0 s, exec_argv = args p, exec_envv = environ p\<rparr> l)"
proof -
  let ?d = "last (event_times b) + debounce_ms"
  from start have s0: "doit s = None" "\<not> w_closed (wt s)" by (auto simp: watch_start_Inr)
  from cov s0(1) have "covered (doit s) b" by simp
  from prompt_sched_covered [OF this s0(2) inp adds] obtain s' where
    run: "loop_run dbg w p s b = Looping s'" and a: "argv0 s' = argv0 s"
    and ps: "prompt_sched dbg w p s (b @ ys) h = b @ prompt_sched dbg w p s' ys h"
    by blast
  have d: "doit s' = Some ?d" using loop_run_doit [OF run] ev by simp
  have "prompt_sched dbg w p s' ys h = [(?d, Fire)]"
    using d nxt by (cases ys) (auto simp: Let_def)
  moreover have "loop_run dbg w p s' [(?d, Fire)] =
      Execd \<lparr>exec_path = argv0 s, exec_argv = args p, exec_envv = environ p\<rparr>
        (logs s' @ [LogRestarting (argv0 s')])"
    using fire_sched [OF d order.refl, of w dbg p] ex a by simp
  ultimately show ?thesis using ps run by (simp add: loop_run_append)
qed

lemma system_run_restart:
  assumes "watch_start (init_debug (environ p)) w p = Inr s"
    and "prompt_sched (init_debug (environ p)) w p s xs h = b @ [(d, Fire)]" and "fs_input b"
    and "loop_run (init_debug (environ p)) w p s (b @ [(d, Fire)]) = Execd r l"
  shows "system_run (Suc n) w p xs h = map_option (Cons d) (system_run n w (proc_of r) (drop (length b) xs) h)"
  using assms by (simp add: Let_def fire_time_fs_append)

text \<open>C14: restarts across process images.  Two bursts of writes, each a single debounce
  window and the second starting after the first one's restart, restart the program twice:
  the first image execs at the first burst's last event plus 500 ms, the image it starts
  watches again and execs at the second burst's last event plus 500 ms, and the third image
  is idle.\<close>

theorem two_bursts_two_restarts:
  assumes start: "watch_start (init_debug (environ p)) w p = Inr s" and ex: "exec_ok w (argv0 s)"
    and inp: "fs_input (b1 @ b2)" and adds: "\<forall>n \<in> set (event_names (b1 @ b2)). add_ok w n"
    and b1: "event_times b1 \<noteq> []" "covered None b1"
    and b2: "event_times b2 \<noteq> []" "covered None b2"
    and gap: "\<forall>x \<in> set b2. last (event_times b1) + debounce_ms < fst x"
    and hor: "last (event_times b2) + debounce_ms \<le> h"
  shows "system_run 3 w p (b1 @ b2) h =
           Some [last (event_times b1) + debounce_ms, last (event_times b2) + debounce_ms]"
proof -
  let ?dbg = "init_debug (environ p)"
  let ?d1 = "last (event_times b1) + debounce_ms" and ?d2 = "last (event_times b2) + debounce_ms"
  let ?r = "\<lparr>exec_path = argv0 s, exec_argv = args p, exec_envv = environ p\<rparr>"
  have i1: "fs_input b1" "fs_input b2" using inp by (auto simp: fs_input_def)
  have a1: "\<forall>n \<in> set (event_names b1). add_ok w n" "\<forall>n \<in> set (event_names b2). add_ok w n"
    using adds by auto
  from b2(1) obtain t c cs where b2c: "b2 = (t, c) # cs"
    by (cases b2) fastforce+
  have n1: "case b2 of [] \<Rightarrow> ?d1 \<le> h | (t, c) # _ \<Rightarrow> ?d1 < t" using gap b2c by simp
  obtain l1 where p1: "prompt_sched ?dbg w p s (b1 @ b2) h = b1 @ [(?d1, Fire)]"
    and e1: "loop_run ?dbg w p s (b1 @ [(?d1, Fire)]) = Execd ?r l1"
    using image_restart [OF start b1(2) i1(1) a1(1) b1(1) ex n1] by blast
  have n2: "case ([] :: (time_ms \<times> sel) list) of [] \<Rightarrow> ?d2 \<le> h | (t, c) # _ \<Rightarrow> ?d2 < t"
    using hor by simp
  obtain l2 where p2: "prompt_sched ?dbg w p s (b2 @ []) h = b2 @ [(?d2, Fire)]"
    and e2: "loop_run ?dbg w p s (b2 @ [(?d2, Fire)]) = Execd ?r l2"
    using image_restart [OF start b2(2) i1(2) a1(2) b2(1) ex n2] by blast
  have "doit s = None" using start by (auto simp: watch_start_Inr)
  then have last_img: "system_run 1 w p [] h = Some []"
    using start by (simp add: Let_def)
  have "system_run (Suc 1) w p b2 h = map_option (Cons ?d2) (system_run 1 w p [] h)"
    using system_run_restart [OF start _ i1(2) e2, of "b2" h 1] p2
    by (simp add: proc_of_self del: system_run.simps)
  then have s2: "system_run (Suc 1) w p b2 h = Some [?d2]"
    using last_img by (simp del: system_run.simps)
  have "system_run (Suc (Suc 1)) w p (b1 @ b2) h =
      map_option (Cons ?d1) (system_run (Suc 1) w p b2 h)"
    using system_run_restart [OF start p1 i1(1) e1, of "Suc 1"]
    by (simp add: proc_of_self del: system_run.simps)
  with s2 have "system_run (Suc (Suc 1)) w p (b1 @ b2) h = Some [?d1, ?d2]"
    by (simp del: system_run.simps)
  then show ?thesis by (simp add: numeral_3_eq_3 del: system_run.simps)
qed

lemma prompt_sched_fire_prefix:
  "fs_input xs \<Longrightarrow> fire_time (prompt_sched dbg w p s xs h) = Some r \<Longrightarrow>
   \<exists>b ys. xs = b @ ys \<and> prompt_sched dbg w p s xs h = b @ [(r, Fire)] \<and>
     (event_times b = [] \<longrightarrow> doit s = Some r)"
proof (induction xs arbitrary: s)
  case Nil
  then show ?case by (auto split: option.splits if_splits)
next
  case (Cons x cs)
  obtain t c where x: "x = (t, c)" by fastforce
  from Cons.prems x have c: "c \<noteq> Fire" by (auto simp: fs_input_def)
  have ft: "fire_time ((t, c) # ys) = fire_time ys" for ys using c by (cases c) auto
  show ?case
  proof (cases "\<exists>d. doit s = Some d \<and> d < t")
    case True
    then obtain d where d: "doit s = Some d" "d < t" by blast
    with Cons.prems(2) x have "r = d" by (simp add: Let_def)
    with d x show ?thesis by (intro exI [of _ "[]"] exI [of _ "x # cs"]) (auto simp: Let_def)
  next
    case False
    then have ps: "prompt_sched dbg w p s (x # cs) h = (t, c) # (case loop_step dbg w p t s c of
        Cont s' \<Rightarrow> prompt_sched dbg w p s' cs h | Exit r \<Rightarrow> [])"
      using x by (auto simp: Let_def split: option.splits simp del: loop_step.simps)
    show ?thesis
    proof (cases "loop_step dbg w p t s c")
      case (Exit r')
      with Cons.prems(2) ps ft show ?thesis by simp
    next
      case (Cont s')
      with Cons.prems(2) ps ft have "fire_time (prompt_sched dbg w p s' cs h) = Some r" by simp
      with Cons.prems(1) obtain b ys where ih: "cs = b @ ys"
        "prompt_sched dbg w p s' cs h = b @ [(r, Fire)]" "event_times b = [] \<longrightarrow> doit s' = Some r"
        using Cons.IH [of s'] by (auto simp: fs_input_def)
      have "event_times ((t, c) # b) = [] \<longrightarrow> doit s = Some r"
        using ih(3) loop_step_doit [OF Cont] c by (cases c) auto
      with ih ps Cont x show ?thesis by (intro exI [of _ "x # b"] exI [of _ ys]) auto
    qed
  qed
qed

text \<open>C15: the chain of images ends, with at most one restart per file event.  An image
  restarts only after a file event armed its timer (backend errors never do), and the
  next image starts on the inputs after the restart; so with more fuel than inputs the
  process-level run has a result, and it restarts at most as often as there are file
  events in the stream.\<close>

theorem system_run_fuel:
  "fs_input xs \<Longrightarrow> length xs < n \<Longrightarrow>
     \<exists>ts. system_run n w p xs h = Some ts \<and> length ts \<le> length (event_times xs)"
proof (induction n arbitrary: p xs)
  case 0
  then show ?case by simp
next
  case (Suc n)
  let ?dbg = "init_debug (environ p)"
  show ?case
  proof (cases "watch_start ?dbg w p")
    case (Inl r)
    then show ?thesis by simp
  next
    case (Inr s)
    let ?sch = "prompt_sched ?dbg w p s xs h"
    show ?thesis
    proof (cases "fire_time ?sch")
      case None
      with Inr show ?thesis by (simp add: Let_def)
    next
      case (Some tf)
      from Inr have idle: "doit s = None" by (auto simp: watch_start_Inr)
      from prompt_sched_fire_prefix [OF Suc.prems(1) Some] obtain b ys where
        sp: "xs = b @ ys" "?sch = b @ [(tf, Fire)]" "event_times b = [] \<longrightarrow> doit s = Some tf"
        by blast
      from sp(3) idle have ev: "event_times b \<noteq> []" by auto
      then have "b \<noteq> []" by auto
      then have "length ys < n" using Suc.prems(2) sp(1) by (cases b) auto
      moreover have "fs_input ys" using Suc.prems(1) sp(1) by (auto simp: fs_input_def)
      ultimately have ih: "\<exists>ts. system_run n w q ys h = Some ts \<and> length ts \<le> length (event_times ys)"
        for q by (intro Suc.IH)
      have dr: "drop (length ?sch - 1) xs = ys" using sp(1,2) by simp
      show ?thesis
      proof (cases "loop_run ?dbg w p s ?sch")
        case (Execd r l)
        from ih [of "proc_of r"] obtain ts where
          ts: "system_run n w (proc_of r) ys h = Some ts" "length ts \<le> length (event_times ys)" by blast
        have "system_run (Suc n) w p xs h = Some (tf # ts)"
          using Inr Some Execd dr ts(1) by (simp add: Let_def)
        moreover have "length (tf # ts) \<le> length (event_times xs)"
          using ts(2) ev sp(1) by (cases "event_times b") auto
        ultimately show ?thesis by blast
      next
        case (Failed e wo l)
        with Inr Some show ?thesis by (simp add: Let_def)
      next
        case (Looping s')
        with Inr Some show ?thesis by (simp add: Let_def)
      qed
    qed
  qed
qed

text \<open>C16: the process-level refinement.  For any stream of file events and backend
  errors at nondecreasing times within the horizon, when the program starts, every
  re-registration and every exec succeeds and each image's timer is delivered promptly,
  the chain of process images restarts exactly at the times \<open>restarts\<close> gives: the
  debounce specification \<open>restart_at\<close> applied to the events, then again to the events
  after that restart, and so on.  One more image than events is enough.\<close>

theorem system_run_restarts:
  assumes start: "watch_start (init_debug (environ p)) w p = Inr s" and ex: "exec_ok w (argv0 s)"
  shows "fs_input xs \<Longrightarrow> sorted (map fst xs) \<Longrightarrow> \<forall>x \<in> set xs. fst x \<le> h \<Longrightarrow>
    \<forall>n \<in> set (event_names xs). add_ok w n \<Longrightarrow> length xs < n \<Longrightarrow>
    system_run n w p xs h = Some (restarts (event_times xs) h)"
proof (induction n arbitrary: xs)
  case 0
  then show ?case by simp
next
  case (Suc n)
  let ?dbg = "init_debug (environ p)"
  let ?sch = "prompt_sched ?dbg w p s xs h"
  from start have s0: "doit s = None" "\<not> w_closed (wt s)" by (auto simp: watch_start_Inr)
  have ft: "fire_time ?sch = restart_at (event_times xs) h"
    using s0 Suc.prems(1-4) by (intro prompt_sched_idle)
  have "sorted (0 # map fst xs)" using Suc.prems(2) by simp
  then have run: "(fire_time ?sch \<noteq> None \<longrightarrow>
      (\<exists>l. loop_run ?dbg w p s ?sch =
             Execd \<lparr>exec_path = argv0 s, exec_argv = args p, exec_envv = environ p\<rparr> l))"
    using prompt_sched_run [of s 0 xs w ?dbg p h] s0 Suc.prems(1,4) ex by simp
  show ?case
  proof (cases "restart_at (event_times xs) h")
    case None
    with ft start show ?thesis by (simp add: Let_def restarts_None split: watch_ret.splits)
  next
    case (Some r)
    with ft have fts: "fire_time ?sch = Some r" by simp
    then have "fire_time ?sch \<noteq> None" by simp
    with run obtain l where e: "loop_run ?dbg w p s ?sch =
        Execd \<lparr>exec_path = argv0 s, exec_argv = args p, exec_envv = environ p\<rparr> l" by blast
    from prompt_sched_fire_split [OF Suc.prems(1,2) fts] obtain b ys where
      sp: "xs = b @ ys" "?sch = b @ [(r, Fire)]" "\<forall>x \<in> set b. fst x \<le> r"
        "\<forall>y \<in> set ys. r < fst y" "b = [] \<longrightarrow> doit s = Some r"
      by blast
    from Suc.prems(1) sp(1) have fb: "fs_input b" "fs_input ys" by (auto simp: fs_input_def)
    have "drop (length b) xs = ys" using sp(1) by simp
    then have "system_run (Suc n) w p xs h = map_option (Cons r) (system_run n w p ys h)"
      using system_run_restart [OF start sp(2) fb(1) e [unfolded sp(2)], of n]
      unfolding proc_of_self by simp
    moreover have "b \<noteq> []" using sp(5) s0(1) by auto
    then have "length ys < n" using Suc.prems(5) sp(1) by (cases b) auto
    then have "system_run n w p ys h = Some (restarts (event_times ys) h)"
      using Suc.prems(2-4) fb(2) sp(1) by (intro Suc.IH) (auto simp: sorted_append)
    moreover have "event_times ys = filter (\<lambda>u. r < u) (event_times xs)"
      using event_times_split_filter [OF sp(3,4)] sp(1) by simp
    ultimately show ?thesis using restarts_Some [OF Some] by simp
  qed
qed

theorem two_bursts_two_restarts_witness:
  "system_run 3 demo_world demo_proc (demo_first @ demo_second) 2000 = Some [600, 1500]"
proof -
  have st: "watch_start (init_debug (environ demo_proc)) demo_world demo_proc =
      Inr (demo_start\<lparr>logs := debug (init_debug (environ demo_proc)) (LogReloader ''/tmp/app'') []\<rparr>)"
    by (rule demo_watch_start)
  have "system_run 3 demo_world demo_proc (demo_first @ demo_second) 2000 =
      Some [last (event_times demo_first) + debounce_ms, last (event_times demo_second) + debounce_ms]"
    by (rule two_bursts_two_restarts [OF st])
       (simp_all add: demo_first_def demo_second_def demo_event_def demo_world_def
          demo_start_def fs_input_def debounce_ms_def)
  then show ?thesis by (simp add: demo_first_def demo_second_def debounce_ms_def)
qed

theorem system_run_fuel_witness:
  "fs_input demo_first \<and> length demo_first < 3 \<and>
   (\<exists>ts. system_run 3 demo_world demo_proc demo_first 2000 = Some ts \<and>
      length ts \<le> length (event_times demo_first))"
proof -
  have i: "fs_input demo_first" by (simp add: demo_first_def fs_input_def)
  have l: "length demo_first < 3" by (simp add: demo_first_def)
  from system_run_fuel [OF i l] i l show ?thesis by blast
qed

theorem system_run_restarts_witness:
  "system_run 4 demo_world demo_proc (demo_first @ demo_second) 2000 = Some [600, 1500]"
proof -
  have st: "watch_start (init_debug (environ demo_proc)) demo_world demo_proc =
      Inr (demo_start\<lparr>logs := debug (init_debug (environ demo_proc)) (LogReloader ''/tmp/app'') []\<rparr>)"
    by (rule demo_watch_start)
  have ex: "exec_ok demo_world (argv0 (demo_start\<lparr>logs := debug (init_debug (environ demo_proc))
      (LogReloader ''/tmp/app'') []\<rparr>))"
    by (simp add: demo_world_def demo_start_def)
  have "system_run 4 demo_world demo_proc (demo_first @ demo_second) 2000 =
      Some (restarts (event_times (demo_first @ demo_second)) 2000)"
    by (rule system_run_restarts [OF st ex])
       (simp_all add: demo_first_def demo_second_def demo_event_def demo_world_def fs_input_def)
  moreover have "restart_at [0, 100, 1000] 2000 = Some 600"
    by (simp add: restart_at_def quiet_def debounce_ms_def)
  moreover have "restart_at [1000] 2000 = Some 1500"
    by (simp add: restart_at_def quiet_def debounce_ms_def)
  moreover have "restart_at [] 2000 = None"
    by (simp add: restart_at_def)
  ultimately show ?thesis
    by (simp add: demo_first_def demo_second_def restarts_Some restarts_None)
qed

end
