(* ===== verification/Once.thy ===== *)
theory Once
  imports Prelude
begin

text \<open>
  \<open>Init\<close> (src/devrestarter.go lines 67--80): \<open>once.Do(func() { go func() {...}() })\<close>
  on the package variable \<open>once sync.Once\<close>.  Any number of goroutines (numbered
  by \<open>nat\<close>) may call \<open>Init\<close> concurrently; each call is a sequence of atomic
  steps, and a step of the system is one step of one caller, so the steps form a
  relation (\<open>once_step\<close>).  The steps of \<open>Do\<close> follow Go's sync package (not part
  of the repository): the fast path loads \<open>done\<close> atomically and returns if it is
  set; the slow path takes the mutex, loads \<open>done\<close> again, runs the function if it
  is unset, then (deferred, in reverse order) stores \<open>done = 1\<close> and unlocks.  The
  function given to \<open>Do\<close> is the \<open>go\<close> statement that starts the watch
  goroutine: one step that increments \<open>spawned\<close>, the number of watch goroutines.
\<close>

datatype opc = OIdle | OCalled | OSlow | OLocked | OAfterF | OUnlock | ORet

record once_sys =
  pc :: "nat \<Rightarrow> opc"
  done_flag :: bool
  mu :: "nat option"
  spawned :: nat

definition once_init :: once_sys where
  "once_init = \<lparr>pc = (\<lambda>_. OIdle), done_flag = False, mu = None, spawned = 0\<rparr>"

inductive once_step :: "once_sys \<Rightarrow> once_sys \<Rightarrow> bool" where
  call: "pc s i = OIdle \<Longrightarrow> once_step s (s\<lparr>pc := (pc s)(i := OCalled)\<rparr>)"
| fast_done: "pc s i = OCalled \<Longrightarrow> done_flag s \<Longrightarrow> once_step s (s\<lparr>pc := (pc s)(i := ORet)\<rparr>)"
| fast_slow: "pc s i = OCalled \<Longrightarrow> \<not> done_flag s \<Longrightarrow> once_step s (s\<lparr>pc := (pc s)(i := OSlow)\<rparr>)"
| lock: "pc s i = OSlow \<Longrightarrow> mu s = None \<Longrightarrow>
           once_step s (s\<lparr>pc := (pc s)(i := OLocked), mu := Some i\<rparr>)"
| run_f: "pc s i = OLocked \<Longrightarrow> \<not> done_flag s \<Longrightarrow>
           once_step s (s\<lparr>pc := (pc s)(i := OAfterF), spawned := Suc (spawned s)\<rparr>)"
| skip_f: "pc s i = OLocked \<Longrightarrow> done_flag s \<Longrightarrow> once_step s (s\<lparr>pc := (pc s)(i := OUnlock)\<rparr>)"
| store: "pc s i = OAfterF \<Longrightarrow> once_step s (s\<lparr>pc := (pc s)(i := OUnlock), done_flag := True\<rparr>)"
| unlock: "pc s i = OUnlock \<Longrightarrow> once_step s (s\<lparr>pc := (pc s)(i := ORet), mu := None\<rparr>)"

definition once_one :: once_sys where
  "once_one = \<lparr>pc = (\<lambda>i. if i = 0 then ORet else OIdle), done_flag = True, mu = None, spawned = 1\<rparr>"

inductive once_reach :: "once_sys \<Rightarrow> bool" where
  init: "once_reach once_init"
| step: "once_reach s \<Longrightarrow> once_step s s' \<Longrightarrow> once_reach s'"

definition holds_lock :: "opc \<Rightarrow> bool" where
  "holds_lock c \<longleftrightarrow> c = OLocked \<or> c = OAfterF \<or> c = OUnlock"

definition once_inv :: "once_sys \<Rightarrow> bool" where
  "once_inv s \<longleftrightarrow>
     (\<forall>i. mu s = Some i \<longleftrightarrow> holds_lock (pc s i)) \<and>
     (mu s = None \<longrightarrow> (\<forall>i. \<not> holds_lock (pc s i))) \<and>
     spawned s \<le> 1 \<and>
     (done_flag s \<longrightarrow> spawned s = 1) \<and>
     (\<forall>i. pc s i = OAfterF \<longrightarrow> spawned s = 1 \<and> \<not> done_flag s) \<and>
     (\<not> done_flag s \<longrightarrow> (\<forall>i. pc s i \<noteq> OAfterF) \<longrightarrow> spawned s = 0) \<and>
     (\<forall>i. pc s i = OUnlock \<or> pc s i = ORet \<longrightarrow> done_flag s)"

lemma once_inv_mu: "once_inv s \<Longrightarrow> mu s = Some k \<longleftrightarrow> holds_lock (pc s k)"
  by (simp add: once_inv_def)

lemma once_inv_lock_unique:
  "once_inv s \<Longrightarrow> holds_lock (pc s i) \<Longrightarrow> holds_lock (pc s j) \<Longrightarrow> i = j"
proof -
  assume inv: "once_inv s" and hi: "holds_lock (pc s i)" and hj: "holds_lock (pc s j)"
  from once_inv_mu [OF inv] hi hj have "mu s = Some i" "mu s = Some j" by blast+
  then show "i = j" by simp
qed

lemma once_inv_init: "once_inv once_init"
  by (simp add: once_inv_def once_init_def holds_lock_def)

lemma once_step_inv: "once_step s s' \<Longrightarrow> once_inv s \<Longrightarrow> once_inv s'"
proof (induction rule: once_step.induct)
  case (call s i)
  then have "pc s j = OAfterF \<Longrightarrow> j \<noteq> i" for j by auto
  with call show ?case by (auto simp: once_inv_def holds_lock_def)
next
  case (fast_done s i)
  then show ?case by (auto simp: once_inv_def holds_lock_def)
next
  case (fast_slow s i)
  then have "pc s j = OAfterF \<Longrightarrow> j \<noteq> i" for j by auto
  with fast_slow show ?case by (auto simp: once_inv_def holds_lock_def)
next
  case (lock s i)
  then show ?case by (auto simp: once_inv_def holds_lock_def)
next
  case (run_f s i)
  have "pc s j \<noteq> OAfterF" for j
    using once_inv_lock_unique [OF run_f.prems, of i j] run_f.hyps(1) by (auto simp: holds_lock_def)
  with run_f have "spawned s = 0" by (auto simp: once_inv_def)
  with run_f \<open>\<And>j. pc s j \<noteq> OAfterF\<close> show ?case by (auto simp: once_inv_def holds_lock_def)
next
  case (skip_f s i)
  then show ?case by (auto simp: once_inv_def holds_lock_def)
next
  case (store s i)
  have uniq: "pc s j = OAfterF \<Longrightarrow> j = i" for j
    using once_inv_lock_unique [OF store.prems, of i j] store.hyps by (auto simp: holds_lock_def)
  from store show ?case by (auto simp: once_inv_def holds_lock_def dest: uniq)
next
  case (unlock s i)
  have "\<forall>j. j \<noteq> i \<longrightarrow> \<not> holds_lock (pc s j)"
    using once_inv_lock_unique [OF unlock.prems, of i] unlock.hyps by (auto simp: holds_lock_def)
  with unlock show ?case by (auto simp: once_inv_def holds_lock_def)
qed

lemma once_reach_inv: "once_reach s \<Longrightarrow> once_inv s"
  by (induction rule: once_reach.induct) (auto intro: once_inv_init once_step_inv)

text \<open>C6: the watch goroutine is started at most once.  In every state reachable by any
  interleaving of any number of concurrent \<open>Init\<close> calls, at most one watch goroutine
  has been started.\<close>

theorem once_at_most_once: "once_reach s \<Longrightarrow> spawned s \<le> 1"
  by (auto dest: once_reach_inv simp: once_inv_def)

text \<open>C7: a returned \<open>Init\<close> has started the watcher.  In every reachable state, once
  any caller has returned from \<open>Init\<close>, exactly one watch goroutine has been started,
  whichever path (fast or slow) the caller took.\<close>

theorem once_return_started: "once_reach s \<Longrightarrow> pc s i = ORet \<Longrightarrow> spawned s = 1"
  by (auto dest: once_reach_inv simp: once_inv_def)

subsection \<open>Witnesses\<close>

lemma once_one_reach: "once_reach once_one"
proof -
  let ?c = "once_init\<lparr>pc := (pc once_init)(0 := OCalled)\<rparr>"
  let ?s1 = "?c\<lparr>pc := (pc ?c)(0 := OSlow)\<rparr>"
  let ?s2 = "?s1\<lparr>pc := (pc ?s1)(0 := OLocked), mu := Some 0\<rparr>"
  let ?s3 = "?s2\<lparr>pc := (pc ?s2)(0 := OAfterF), spawned := Suc (spawned ?s2)\<rparr>"
  let ?s4 = "?s3\<lparr>pc := (pc ?s3)(0 := OUnlock), done_flag := True\<rparr>"
  let ?s5 = "?s4\<lparr>pc := (pc ?s4)(0 := ORet), mu := None\<rparr>"
  have "once_reach ?c" using once_reach.init
    by (rule once_reach.step) (rule once_step.call, simp add: once_init_def)
  then have "once_reach ?s1"
    by (rule once_reach.step) (rule once_step.fast_slow, simp_all add: once_init_def)
  then have "once_reach ?s2"
    by (rule once_reach.step) (rule once_step.lock, simp_all add: once_init_def)
  then have "once_reach ?s3"
    by (rule once_reach.step) (rule once_step.run_f, simp_all add: once_init_def)
  then have "once_reach ?s4"
    by (rule once_reach.step) (rule once_step.store, simp)
  then have "once_reach ?s5"
    by (rule once_reach.step) (rule once_step.unlock, simp)
  moreover have "?s5 = once_one" by (auto simp: once_init_def once_one_def)
  ultimately show ?thesis by simp
qed

theorem once_at_most_once_witness: "once_reach once_one \<and> spawned once_one \<le> 1"
  using once_one_reach once_at_most_once [OF once_one_reach] by simp

theorem once_return_started_witness:
  "once_reach once_one \<and> pc once_one 0 = ORet \<and> spawned once_one = 1"
proof -
  have ret: "pc once_one 0 = ORet" by (simp add: once_one_def)
  from once_one_reach ret once_return_started [OF once_one_reach ret] show ?thesis by simp
qed

end
