(* ===== verification/GoTime.thy ===== *)
theory GoTime
  imports Watch "HOL-Library.Word"
begin

text \<open>
  The timer of the watch loop at machine width.  src/devrestarter.go line 57 arms
  \<open>time.After(500 * time.Millisecond)\<close>: \<open>time.Duration\<close> is an \<open>int64\<close> count of
  nanoseconds and \<open>time.Millisecond\<close> is \<open>1000000\<close>, so the constant expression is the
  64-bit value \<open>debounce_dur\<close>.  The Go runtime (not part of the repository, modelled
  from runtime/time.go, function \<open>when\<close>) turns a duration into an absolute deadline on
  the \<open>int64\<close> monotonic nanosecond clock: a non-positive duration means now, otherwise
  the sum, clamped to \<open>math.MaxInt64\<close> when the signed addition overflows
  (\<open>timer_when\<close>).  The lemma of this theory connects this to the millisecond model of
  the other theories: the deadline is exactly \<open>debounce_ms\<close> milliseconds after now,
  unless the clock is within 500 ms of the end of the \<open>int64\<close> range, where it is
  clamped and never wraps into the past.
\<close>

type_synonym duration = "64 word"

definition millisecond :: duration where
  "millisecond = 1000000"

definition debounce_dur :: duration where
  "debounce_dur = 500 * millisecond"

definition max_int64 :: "64 word" where
  "max_int64 = 9223372036854775807"

definition timer_when :: "64 word \<Rightarrow> duration \<Rightarrow> 64 word" where
  "timer_when now d =
     (if d \<le>s 0 then now
      else (let t = now + d in if t <s 0 then max_int64 else t))"

lemma sint_debounce_dur: "sint debounce_dur = int debounce_ms * 1000000"
  by (simp add: debounce_dur_def millisecond_def debounce_ms_def)

lemma sint_max_int64: "sint max_int64 = 2 ^ 63 - 1"
  by (simp add: max_int64_def)

lemma sint_add_nonneg:
  fixes a b :: "64 word"
  assumes "0 \<le> sint a" "0 \<le> sint b"
  shows "sint (a + b) =
    (if sint a + sint b < 2 ^ 63 then sint a + sint b else sint a + sint b - 2 ^ 64)"
proof -
  have lt: "sint a < 2 ^ 63" "sint b < 2 ^ 63" using sint_less [of a] sint_less [of b] by simp_all
  show ?thesis
  proof (cases "sint a + sint b < 2 ^ 63")
    case True
    then show ?thesis using assms
      by (simp add: sint_word_add signed_take_bit_int_eq_self)
  next
    case False
    define r where "r = sint a + sint b - 2 ^ 63"
    have r: "0 \<le> r" "r < 2 ^ 63" "sint a + sint b = r + 2 ^ 63"
      using False lt by (simp_all add: r_def)
    have "(r + 2 ^ 63) div 2 ^ 63 = (1 :: int)"
      using r(1,2) by (simp add: div_pos_pos_trivial)
    then have "signed_take_bit 63 (sint a + sint b) = sint a + sint b - 2 ^ 64"
      using False lt assms r(3)
      by (simp add: signed_take_bit_eq_take_bit_minus take_bit_int_eq_self bit_iff_odd)
    with False show ?thesis by (simp add: sint_word_add)
  qed
qed

text \<open>C20: the debounce deadline at machine width.  For every non-negative reading of
  the monotonic clock, the deadline the runtime computes for
  \<open>time.After(500 * time.Millisecond)\<close> is exactly \<open>debounce_ms\<close> milliseconds later
  in nanoseconds when that fits in \<open>int64\<close>, and \<open>math.MaxInt64\<close> otherwise: the
  constant does not overflow and the deadline never wraps to a time before now.\<close>

theorem timer_deadline_bounds:
  assumes "0 \<le> sint now"
  shows "sint (timer_when now debounce_dur) =
    (if sint now + int debounce_ms * 1000000 < 2 ^ 63 then sint now + int debounce_ms * 1000000
     else 2 ^ 63 - 1)"
proof -
  have dpos: "0 < sint debounce_dur" by (simp add: sint_debounce_dur debounce_ms_def)
  then have pos: "\<not> debounce_dur \<le>s 0" by (simp add: word_sle_eq)
  have add: "sint (now + debounce_dur) =
      (if sint now + sint debounce_dur < 2 ^ 63 then sint now + sint debounce_dur
       else sint now + sint debounce_dur - 2 ^ 64)"
    using sint_add_nonneg [of now debounce_dur] assms dpos by simp
  have "sint now < 2 ^ 63" using sint_less [of now] by simp
  with add assms pos show ?thesis
    by (auto simp: timer_when_def Let_def word_sless_alt sint_max_int64 sint_debounce_dur debounce_ms_def)
qed

theorem timer_deadline_bounds_witness:
  "sint (timer_when 1000000000 debounce_dur) = 1500000000 \<and>
   sint (timer_when max_int64 debounce_dur) = 2 ^ 63 - 1"
proof -
  have a: "0 \<le> sint (1000000000 :: 64 word)" by simp
  have b: "0 \<le> sint max_int64" by (simp add: sint_max_int64)
  from timer_deadline_bounds [OF a] timer_deadline_bounds [OF b] show ?thesis
    by (simp add: debounce_ms_def sint_max_int64)
qed

end
