(* ===== verification/LogFormat.thy ===== *)
theory LogFormat
  imports Watch
begin

text \<open>
  The text of the log lines.  The four call sites of src/devrestarter.go that write a line,
  \<open>debug("reloader:", argv0)\<close> (line 42), \<open>log.Println("Restarting", argv0)\<close>
  (line 51), \<open>debug("watcher.Event:", event)\<close> (line 56) and
  \<open>debug("watcher.Error:", err)\<close> (line 62), are \<open>reloader_line\<close>,
  \<open>restarting_line\<close>, \<open>event_line\<close> and \<open>error_line\<close>: \<open>fmt.Sprintln\<close> of the
  operands (\<open>sprintln\<close>: operands separated by one space, a newline appended), an event
  operand formatted by fsnotify's \<open>Event.String\<close> (\<open>event_string\<close>: the name quoted
  with \<open>%q\<close>, then the names of the bits of \<open>Op\<close> that are set, joined by \<open>|\<close>), an
  error by its message.  \<open>go_quote\<close> is \<open>strconv.Quote\<close> on bytes: quote and backslash
  escaped, the control characters with a short escape as such, the other control bytes
  and DEL as \<open>\x\<close> with two lower-case hex digits; bytes from 0x80 up are passed through,
  which is what Go does for valid UTF-8 of printable characters (invalid UTF-8 and
  non-printable runes, which Go escapes, are not distinguished).  \<open>log_output\<close> is what
  the standard logger writes for a list of entries, each line after the timestamp prefix
  \<open>stamp\<close> of its flags.  \<open>unquote_body\<close> and \<open>read_event_name\<close> are a reader of
  these lines (a consumer of the log, not code of the program), used to state that the
  event diagnostics can be parsed back.
\<close>

unbundle bit_operations_syntax

abbreviation bslash :: char where "bslash \<equiv> CHR 0x5C"
abbreviation dquote :: char where "dquote \<equiv> CHR 0x22"
abbreviation newline :: char where "newline \<equiv> CHR 0x0A"

definition lower_hex :: string where
  "lower_hex = ''0123456789abcdef''"

definition quote_char :: "char \<Rightarrow> string" where
  "quote_char c =
     (if c = dquote \<or> c = bslash then [bslash, c]
      else if c = CHR 0x07 then [bslash, CHR ''a'']
      else if c = CHR 0x08 then [bslash, CHR ''b'']
      else if c = CHR 0x0C then [bslash, CHR ''f'']
      else if c = CHR 0x0A then [bslash, CHR ''n'']
      else if c = CHR 0x0D then [bslash, CHR ''r'']
      else if c = CHR 0x09 then [bslash, CHR ''t'']
      else if c = CHR 0x0B then [bslash, CHR ''v'']
      else if of_char c < (32::nat) \<or> of_char c = (127::nat)
      then [bslash, CHR ''x'', lower_hex ! (of_char c div 16), lower_hex ! (of_char c mod 16)]
      else [c])"

definition go_quote :: "string \<Rightarrow> string" where
  "go_quote s = dquote # concat (map quote_char s) @ [dquote]"

definition op_names :: "fs_op \<Rightarrow> string" where
  "op_names op =
     (if op AND op_create = op_create then ''|CREATE'' else []) @
     (if op AND op_remove = op_remove then ''|REMOVE'' else []) @
     (if op AND op_write = op_write then ''|WRITE'' else []) @
     (if op AND op_rename = op_rename then ''|RENAME'' else []) @
     (if op AND op_chmod = op_chmod then ''|CHMOD'' else [])"

definition event_string :: "fs_event \<Rightarrow> string" where
  "event_string e =
     (let ops = op_names (ev_op e) in
      if ops = [] then go_quote (ev_name e) @ '': '' else go_quote (ev_name e) @ '': '' @ tl ops)"

fun sprintln :: "string list \<Rightarrow> string" where
  "sprintln [] = [newline]"
| "sprintln [x] = x @ [newline]"
| "sprintln (x # y # zs) = x @ '' '' @ sprintln (y # zs)"

definition reloader_line :: "path \<Rightarrow> string" where
  "reloader_line a = sprintln [''reloader:'', a]"

definition restarting_line :: "path \<Rightarrow> string" where
  "restarting_line a = sprintln [''Restarting'', a]"

definition event_line :: "fs_event \<Rightarrow> string" where
  "event_line e = sprintln [''watcher.Event:'', event_string e]"

definition error_line :: "string \<Rightarrow> string" where
  "error_line m = sprintln [''watcher.Error:'', m]"

fun entry_text :: "log_entry \<Rightarrow> string" where
  "entry_text (LogReloader a) = reloader_line a"
| "entry_text (LogEvent e) = event_line e"
| "entry_text (LogError m) = error_line m"
| "entry_text (LogRestarting a) = restarting_line a"

definition log_output :: "string \<Rightarrow> log_entry list \<Rightarrow> string" where
  "log_output stamp l = concat (map (\<lambda>e. stamp @ entry_text e) l)"

definition hex_val :: "char \<Rightarrow> nat option" where
  "hex_val h = map_of (zip lower_hex [0..<16]) h"

definition simple_unescape :: "char \<Rightarrow> char option" where
  "simple_unescape d =
     map_of [(CHR ''a'', CHR 0x07), (CHR ''b'', CHR 0x08), (CHR ''f'', CHR 0x0C),
             (CHR ''n'', CHR 0x0A), (CHR ''r'', CHR 0x0D), (CHR ''t'', CHR 0x09),
             (CHR ''v'', CHR 0x0B), (bslash, bslash), (dquote, dquote)] d"

definition cons_fst :: "char \<Rightarrow> (string \<times> string) option \<Rightarrow> (string \<times> string) option" where
  "cons_fst c r = map_option (\<lambda>(x, t). (c # x, t)) r"

fun unquote_body :: "string \<Rightarrow> (string \<times> string) option" where
  "unquote_body [] = None"
| "unquote_body (c # cs) =
     (if c = dquote then Some ([], cs)
      else if c = bslash then
        (case cs of
           [] \<Rightarrow> None
         | d # ds \<Rightarrow>
             if d = CHR ''x'' then
               (case ds of
                  h1 # h2 # ds' \<Rightarrow>
                    (case (hex_val h1, hex_val h2) of
                       (Some a, Some b) \<Rightarrow> cons_fst (char_of (16 * a + b)) (unquote_body ds')
                     | _ \<Rightarrow> None)
                | _ \<Rightarrow> None)
             else (case simple_unescape d of
                     Some x \<Rightarrow> cons_fst x (unquote_body ds)
                   | None \<Rightarrow> None))
      else cons_fst c (unquote_body cs))"

definition read_event_name :: "string \<Rightarrow> string option" where
  "read_event_name l =
     (let p = ''watcher.Event: '' in
      if take (length p) l = p then
        (case drop (length p) l of
           c # cs \<Rightarrow> if c = dquote then map_option fst (unquote_body cs) else None
         | [] \<Rightarrow> None)
      else None)"

lemma hex_val_nth: "k < 16 \<Longrightarrow> hex_val (lower_hex ! k) = Some k"
proof -
  assume k: "k < 16"
  have "distinct lower_hex" "length lower_hex = length [0..<16::nat]" by (simp_all add: lower_hex_def)
  with k have "map_of (zip lower_hex [0..<16]) (lower_hex ! k) = Some ([0..<16] ! k)"
    by (intro map_of_zip_nth) (simp_all add: lower_hex_def)
  with k show ?thesis by (simp add: hex_val_def)
qed

lemma quote_char_shape:
  "(quote_char c = [c] \<and> c \<noteq> dquote \<and> c \<noteq> bslash \<and> c \<noteq> newline) \<or>
   (\<exists>d. quote_char c = [bslash, d] \<and> d \<noteq> CHR ''x'' \<and> d \<noteq> newline \<and>
        simple_unescape d = Some c) \<or>
   quote_char c = [bslash, CHR ''x'', lower_hex ! (of_char c div 16), lower_hex ! (of_char c mod 16)]"
  unfolding quote_char_def by (simp add: simple_unescape_def)

lemma unquote_hex:
  "unquote_body ([bslash, CHR ''x'', lower_hex ! (of_char c div 16), lower_hex ! (of_char c mod 16)] @ t) =
     cons_fst c (unquote_body t)"
proof -
  have "of_char c < (256::nat)" by (rule nat_of_char_less_256)
  then have "of_char c div 16 < (16::nat)" by (simp add: div_less_iff_less_mult)
  moreover have "of_char c mod 16 < (16::nat)" by simp
  ultimately have "hex_val (lower_hex ! (of_char c div 16)) = Some (of_char c div 16)"
    "hex_val (lower_hex ! (of_char c mod 16)) = Some (of_char c mod 16)"
    by (simp_all add: hex_val_nth)
  moreover have "char_of (16 * (of_char c div 16) + of_char c mod (16::nat)) = c"
  proof -
    have "16 * (of_char c div 16) + of_char c mod (16::nat) = of_char c" by simp
    then show ?thesis by (simp only: char_of_char)
  qed
  ultimately show ?thesis by simp
qed

lemma unquote_quote_char: "unquote_body (quote_char c @ t) = cons_fst c (unquote_body t)"
  using quote_char_shape [of c]
proof (elim disjE exE conjE)
  fix d assume "quote_char c = [bslash, d]" "d \<noteq> CHR ''x''" "simple_unescape d = Some c"
  then show ?thesis by simp
next
  assume "quote_char c =
    [bslash, CHR ''x'', lower_hex ! (of_char c div 16), lower_hex ! (of_char c mod 16)]"
  then show ?thesis by (simp only: unquote_hex)
qed simp

lemma unquote_quoted:
  "unquote_body (concat (map quote_char s) @ dquote # rest) = Some (s, rest)"
  by (induction s) (simp_all add: unquote_quote_char cons_fst_def)

lemma newline_not_in_quote_char: "newline \<notin> set (quote_char c)"
proof -
  have digit: "lower_hex ! k \<noteq> newline" if "k < 16" for k
  proof -
    have "lower_hex ! k \<in> set lower_hex" using that by (intro nth_mem) (simp add: lower_hex_def)
    moreover have "newline \<notin> set lower_hex" by (simp add: lower_hex_def)
    ultimately show ?thesis by metis
  qed
  have "of_char c < (256::nat)" by (rule nat_of_char_less_256)
  then have "of_char c div 16 < (16::nat)" by (simp add: div_less_iff_less_mult)
  with digit [of "of_char c div 16"] digit [of "of_char c mod 16"] quote_char_shape [of c]
  show ?thesis by auto
qed

lemma event_string_shape: "\<exists>y. event_string e = go_quote (ev_name e) @ y \<and> newline \<notin> set y"
proof -
  have no: "newline \<notin> set (op_names op)" for op by (simp add: op_names_def)
  have "newline \<notin> set (tl (op_names op))" for op
    using no [of op] by (cases "op_names op") auto
  then show ?thesis
    by (auto simp: event_string_def Let_def)
qed


lemma newline_not_in_go_quote: "newline \<notin> set (go_quote s)"
  using newline_not_in_quote_char by (auto simp: go_quote_def)

text \<open>C21: the event diagnostics can be read back.  For every file event, whatever its
  name contains, the line \<open>debug("watcher.Event:", event)\<close> writes starts with the
  operand \<open>watcher.Event:\<close> and the name quoted by \<open>%q\<close>, and reading the quoted
  string back gives exactly the file name.\<close>

theorem event_line_roundtrip: "read_event_name (event_line e) = Some (ev_name e)"
proof -
  obtain y where y: "event_string e = go_quote (ev_name e) @ y" using event_string_shape by blast
  have "event_line e = ''watcher.Event: '' @ dquote # concat (map quote_char (ev_name e)) @ dquote # y @ [newline]"
    by (simp add: event_line_def y go_quote_def)
  then show ?thesis by (simp add: read_event_name_def unquote_quoted)
qed

text \<open>C22: an event diagnostic is one line.  For every file event, even one whose name
  contains a line break, the text \<open>debug("watcher.Event:", event)\<close> writes contains
  exactly one newline, at its end, because \<open>%q\<close> escapes the name.\<close>

theorem event_line_single_line:
  "filter (\<lambda>c. c = newline) (event_line e) = [newline] \<and> last (event_line e) = newline"
proof -
  obtain y where y: "event_string e = go_quote (ev_name e) @ y" "newline \<notin> set y"
    using event_string_shape by blast
  have "newline \<notin> set (event_string e)" using y newline_not_in_go_quote by simp
  then have "filter (\<lambda>c. c = newline) (event_string e) = []" by (auto simp: filter_empty_conv)
  then show ?thesis by (simp add: event_line_def)
qed

lemma loop_run_Noop_Execd:
  "logs s = [] \<Longrightarrow> loop_run Noop w p s sched = Execd r l \<Longrightarrow> l = [LogRestarting (exec_path r)]"
proof (induction sched arbitrary: s)
  case Nil
  then show ?case by simp
next
  case (Cons x sched)
  obtain t c where x: "x = (t, c)" by fastforce
  show ?case
  proof (cases "loop_step Noop w p t s c")
    case (Cont s')
    with Cons.prems(1) have "logs s' = []" by (rule loop_step_Noop_logs)
    with Cons.IH Cons.prems(2) x Cont show ?thesis by simp
  next
    case (Exit r')
    with Cons.prems x show ?thesis
      by (auto dest!: loop_step_Exit simp: Let_def split: if_splits)
  qed
qed

text \<open>C23: what a quiet restart writes.  With \<open>RELOADER_DEBUG\<close> unset or empty, a run
  of \<open>watch\<close> that replaces the process image writes exactly one line to the standard
  logger, \<open>Restarting\<close> followed by the path it executes, after the logger's prefix.\<close>

theorem quiet_restart_output:
  "getenv (environ p) ''RELOADER_DEBUG'' = '''' \<Longrightarrow>
   watch (init_debug (environ p)) w p sched = Execd r l \<Longrightarrow>
     log_output stamp l = stamp @ ''Restarting '' @ exec_path r @ [newline]"
proof -
  assume env: "getenv (environ p) ''RELOADER_DEBUG'' = ''''"
    and run: "watch (init_debug (environ p)) w p sched = Execd r l"
  from env have dbg: "init_debug (environ p) = Noop" by (simp add: init_debug_def)
  with run obtain s where st: "watch_start Noop w p = Inr s" and lr: "loop_run Noop w p s sched = Execd r l"
    by (cases "watch_start Noop w p") (auto simp: watch_def dest: watch_start_Inl)
  from st have "logs s = []" by (auto simp: watch_start_Inr)
  from loop_run_Noop_Execd [OF this lr] show ?thesis
    by (simp add: log_output_def restarting_line_def)
qed

lemma loop_run_debug_Execd:
  "loop_run LogPrintln w p s sched = Execd r l \<Longrightarrow>
     \<exists>xs t ys. sched = xs @ (t, Fire) # ys \<and>
       l = logs s @ diag_lines xs @ [LogRestarting (exec_path r)]"
proof (induction sched arbitrary: s)
  case Nil
  then show ?case by simp
next
  case (Cons x sched)
  obtain t c where x: "x = (t, c)" by fastforce
  show ?case
  proof (cases "loop_step LogPrintln w p t s c")
    case (Cont s1)
    with Cons.prems x have "loop_run LogPrintln w p s1 sched = Execd r l" by simp
    from Cons.IH [OF this] obtain xs t' ys where
      ih: "sched = xs @ (t', Fire) # ys" "l = logs s1 @ diag_lines xs @ [LogRestarting (exec_path r)]"
      by blast
    from Cont have "logs s1 = logs s @ diag_line c"
      by (cases c) (auto simp: loop_simps Let_def split: sum.splits if_splits)
    with ih x show ?thesis by (intro exI [of _ "(t, c) # xs"] exI [of _ t'] exI [of _ ys]) simp
  next
    case (Exit r')
    with Cons.prems x have "r' = Execd r l" by simp
    with Exit x show ?thesis
      by (intro exI [of _ "[]"] exI [of _ t] exI [of _ sched])
         (auto dest!: loop_step_Exit simp: Let_def split: if_splits)
  qed
qed

text \<open>C24: the order of the diagnostic log.  With \<open>debug = log.Println\<close>, a run of
  \<open>watch\<close> that replaces the process image writes, in this order, the line
  \<open>reloader:\<close> with the resolved path, one line for each event and each backend error
  the select received before the timer fired, in the order received, and last the line
  \<open>Restarting\<close> with the path it executes.\<close>

theorem debug_restart_log:
  "watch LogPrintln w p sched = Execd r l \<Longrightarrow>
     \<exists>xs t ys. sched = xs @ (t, Fire) # ys \<and>
       l = LogReloader (exec_path r) # diag_lines xs @ [LogRestarting (exec_path r)] \<and>
       log_output stamp l =
         stamp @ reloader_line (exec_path r) @ log_output stamp (diag_lines xs) @
         stamp @ restarting_line (exec_path r)"
proof -
  assume run: "watch LogPrintln w p sched = Execd r l"
  then obtain s where st: "watch_start LogPrintln w p = Inr s"
    and lr: "loop_run LogPrintln w p s sched = Execd r l"
    by (cases "watch_start LogPrintln w p") (auto simp: watch_def dest: watch_start_Inl)
  from st have ls: "logs s = [LogReloader (argv0 s)]" by (auto simp: watch_start_Inr)
  from loop_run_Execd [OF lr] have a: "exec_path r = argv0 s" by simp
  from loop_run_debug_Execd [OF lr] obtain xs t ys where
    "sched = xs @ (t, Fire) # ys" "l = logs s @ diag_lines xs @ [LogRestarting (exec_path r)]"
    by blast
  with ls a show ?thesis
    by (intro exI [of _ xs] exI [of _ t] exI [of _ ys]) (simp add: log_output_def)
qed

lemma reloader_line_splits:
  "filter (\<lambda>c. c = newline) (reloader_line (''/tmp/a'' @ [newline] @ ''b'')) = [newline, newline]"
  by (simp add: reloader_line_def)

theorem quiet_restart_output_witness:
  "watch (init_debug (environ demo_proc)) demo_world demo_proc [(0, Event demo_event), (500, Fire)] =
     Execd demo_req [LogRestarting ''/tmp/app''] \<and>
   log_output ''2015/01/02 03:04:05 '' [LogRestarting ''/tmp/app''] =
     ''2015/01/02 03:04:05 Restarting /tmp/app'' @ [newline]"
proof -
  have env: "getenv (environ demo_proc) ''RELOADER_DEBUG'' = ''''" by (simp add: demo_proc_def)
  then have "init_debug (environ demo_proc) = Noop" by (simp add: init_debug_def)
  then have run: "watch (init_debug (environ demo_proc)) demo_world demo_proc [(0, Event demo_event), (500, Fire)] =
     Execd demo_req [LogRestarting ''/tmp/app'']"
    by (simp add: watch_def demo_watch_start) (simp add: loop_simps demo_simps Let_def)
  from quiet_restart_output [OF env run, of "''2015/01/02 03:04:05 ''"] run show ?thesis
    by (simp add: demo_req_def)
qed

theorem debug_restart_log_witness:
  "watch LogPrintln demo_world demo_proc [(0, Event demo_event), (100, WError ''overflow''), (600, Fire)] =
     Execd demo_req [LogReloader ''/tmp/app'', LogEvent demo_event, LogError ''overflow'',
       LogRestarting ''/tmp/app''] \<and>
   diag_lines [(0, Event demo_event), (100, WError ''overflow'')] = [LogEvent demo_event, LogError ''overflow'']"
proof -
  have run: "watch LogPrintln demo_world demo_proc [(0, Event demo_event), (100, WError ''overflow''), (600, Fire)] =
     Execd demo_req [LogReloader ''/tmp/app'', LogEvent demo_event, LogError ''overflow'',
       LogRestarting ''/tmp/app'']"
    by (simp add: watch_def demo_watch_start) (simp add: loop_simps demo_simps Let_def)
  from debug_restart_log [OF run, of "[]"] obtain xs t ys where
    "[(0, Event demo_event), (100, WError ''overflow''), (600, Fire)] = xs @ (t, Fire) # ys"
    "[LogReloader ''/tmp/app'', LogEvent demo_event, LogError ''overflow'', LogRestarting ''/tmp/app''] =
       LogReloader (exec_path demo_req) # diag_lines xs @ [LogRestarting (exec_path demo_req)]"
    by blast
  with run show ?thesis by simp
qed

end
