(* ===== verification/Spec2Isabelle.thy ===== *)
theory Spec2Isabelle
  imports Restarts Once GoTime LogFormat
begin

text \<open>
  \<^bold>\<open>A verification development of devrestarter\<close> (src/devrestarter.go, 80 lines of Go).

  \<^bold>\<open>The program.\<close>  The package restarts a development server when its binary is
  rebuilt.  \<open>init()\<close> (lines 22--28) chooses the diagnostic logger once, from the
  environment variable \<open>RELOADER_DEBUG\<close>.  \<open>Init()\<close> (lines 67--80) starts, through
  \<open>sync.Once\<close>, a single goroutine running \<open>watch()\<close> and panics if it returns an
  error.  \<open>watch()\<close> (lines 30--65) creates an fsnotify watcher, resolves
  \<open>os.Args[0]\<close> with \<open>exec.LookPath\<close>, registers it, and loops over a \<open>select\<close>
  of three channels: the debounce timer \<open>doit\<close> (restart with \<open>syscall.Exec\<close>), file
  events (re-arm the 500 ms timer and re-register the event's path) and backend errors
  (log only).  Every failure returns an error (the deferred \<open>watcher.Close()\<close> runs),
  and \<open>Init\<close>'s goroutine turns it into a panic.

  \<^bold>\<open>The theories.\<close>
  \<^item> \<open>Prelude\<close>: paths, millisecond times, the error values (one per
    \<open>return stackerr.Wrap(err)\<close>, and the index panic of \<open>os.Args[0]\<close>), the
    \<open>world\<close> record (what the operating system answers: can inotify be created, which
    paths are executable, which can be watched, which exec succeeds), shared list lemmas.
  \<^item> \<open>Fsnotify\<close>: the library interface the program calls (\<open>Event\<close>, \<open>Watcher\<close>,
    \<open>NewWatcher\<close>, \<open>Add\<close>, \<open>Close\<close>), from its documentation, and the kernel
    dropping the watch on a path that is removed or renamed away (\<open>fs_deliver\<close>).
  \<^item> \<open>GoEnv\<close>: \<open>os.Getenv\<close> over \<open>KEY=VALUE\<close> entries (first entry wins), the
    package variable \<open>debug\<close> (\<open>noop\<close> or \<open>log.Println\<close>), \<open>init()\<close> as
    \<open>init_debug\<close>, the log stream as a list of \<open>log_entry\<close>.
  \<^item> \<open>LookPath\<close>: \<open>exec.LookPath\<close>, \<open>filepath.SplitList\<close>,
    \<open>filepath.Join\<close> and \<open>filepath.Clean\<close>, from the Go documentation, with the
    split/join round trip of the search path.
  \<^item> \<open>Watch\<close>: \<open>watch()\<close> itself.  \<open>watch_start\<close> is the startup (lines 31--46),
    \<open>on_fire\<close>, \<open>on_event\<close>, \<open>on_error\<close> the three select cases (lines 50--62),
    \<open>loop_step\<close> the select body, \<open>select_ready\<close> which cases the select may take
    (a nil \<open>doit\<close> never, a \<open>time.After\<close> channel from its deadline on),
    \<open>loop_run\<close> the \<open>for\<close> loop over a schedule of timed choices, \<open>watch\<close> the
    whole function, \<open>sched_ok\<close> the admissible schedules (nondecreasing times, only
    ready choices) and \<open>loop_reach\<close> the reachable loop states.  The state record
    \<open>wstate\<close> holds the locals \<open>argv0\<close>, \<open>doit\<close> (\<open>None\<close> for the nil channel,
    \<open>Some d\<close> for a channel that delivers at time \<open>d\<close>), the watcher and the lines
    written.  \<open>proc\<close> is \<open>os.Args\<close> and \<open>os.Environ()\<close>, read when the timer fires
    (the same value all along, see below).
  \<^item> \<open>Debounce\<close>: the specification \<open>restart_at\<close> of the debounce (500 ms after the
    first event followed by 500 ms of quiet), the prompt delivery of the loop's own timer
    (\<open>prompt_sched\<close>), and the refinement and safety theorems.
  \<^item> \<open>LogFormat\<close>: the text of the four log call sites (lines 42, 51, 56, 62):
    \<open>fmt.Sprintln\<close> of the operands, fsnotify's \<open>Event.String\<close> with the name
    quoted by \<open>strconv.Quote\<close>, and the standard logger's output of a list of entries.
  \<^item> \<open>GoTime\<close>: the 64-bit \<open>time.Duration\<close> of line 57 and the runtime's deadline
    computation (\<open>timer_when\<close>, Go's \<open>runtime.when\<close>) with its overflow clamp.
  \<^item> \<open>Restarts\<close>: the process across restarts.  After a successful exec the new
    image runs \<open>init()\<close> and \<open>Init()\<close> again with the arguments and environment the
    exec passed (\<open>proc_of\<close>); \<open>system_run\<close> chains the images over one stream of
    file events and returns the restart times.
  \<^item> \<open>Once\<close>: \<open>Init\<close> under any number of concurrent callers, as an interleaving step
    relation over the steps of \<open>sync.Once.Do\<close> and the \<open>go\<close> statement.
  \<^item> This theory: the goroutine body of \<open>Init\<close> (\<open>watch_goroutine\<close>, lines 74--78:
    \<open>watch\<close>'s error, which the goroutine panics with, or its other outcome) and the
    properties that span components.

  \<^bold>\<open>What is proved.\<close>  Debounce (C1, C2, C4): with promptly delivered timers the
  loop restarts exactly when the specification says, once per burst at the last event
  plus 500 ms; under every admissible schedule no restart comes within 500 ms of a change.
  Restart (C3): the exec gets the resolved path and
  the current arguments and environment unchanged.  Errors (C5, C9): backend errors
  change nothing but the log; every fatal error leaves the watcher closed.  Invariant
  (C8): in every reachable loop state the executable stays registered, the watcher open,
  the pending deadline within 500 ms.  Re-registration (C17): although a Remove or Rename
  drops the kernel's watch, the event case's \<open>watcher.Add(event.Name)\<close> restores it, so a
  running loop watches exactly the executable and every path an event named.  Diagnostics (C10, C11, C12): the toggle, and what
  is logged with it off and on.  Initialisation (C6, C7): at most one watch
  goroutine, started before any \<open>Init\<close> returns.  Startup (C13): the watch
  target is \<open>os.Args[0]\<close> verbatim when it contains a slash, and otherwise the first
  executable candidate \<open>filepath.Join(dir, os.Args[0])\<close> along \<open>$PATH\<close> (C19).
  Panics (C18): every
  panic of the goroutine of \<open>Init\<close> is caused by a system call that failed, and its
  error names that call and its argument.  Across images (C16, C14,
  C15): the chain of restarted images restarts exactly when the debounce specification,
  applied again after each restart, says; two well-separated bursts give exactly two
  restarts; the chain of images ends, with at most one restart per file event.  Log text (C21, C22): an event diagnostic can be
  read back to the event's file name and is always exactly one line; the reloader,
  Restarting and error lines, which print their operand unquoted, are not (a finding).
  With diagnostics off, a restart writes exactly the line \<open>Restarting\<close> and the
  executed path (C23); with them on, the reloader line, one line per received event or
  backend error in order, and the Restarting line last (C24).  Boundary (C25): with an
  unset or empty \<open>$PATH\<close> a bare \<open>os.Args[0]\<close> fails at startup, the watcher closed.

  \<^bold>\<open>Time, bounds and runs.\<close>  Times are \<open>nat\<close> milliseconds of the monotonic clock.
  \<open>GoTime\<close> justifies this: \<open>time.Duration\<close> is an \<open>int64\<close> of nanoseconds, the
  constant \<open>500 * time.Millisecond\<close> does not overflow, and the runtime's deadline is
  exactly 500 ms after now, clamped (never wrapped) within 500 ms of the end of the
  \<open>int64\<close> clock, about 292 years after boot (C20).  The \<open>for\<close> loop never ends by itself; a run is a finite
  schedule of select choices, and the result \<open>Looping\<close> says that the loop is still
  running when the schedule ends.  Within one image no fuel is needed: every definition
  recurses on a list.  The chain of images in \<open>system_run\<close> has fuel, the number of
  images; C15 shows that one more image than there are inputs is always enough and
  that there are at most as many restarts as file events, since an image restarts only
  after an event armed its timer (backend errors never arm it).

  \<^bold>\<open>Not modelled.\<close>  The timestamp prefix of the log lines (a parameter) and
  Go's escaping of invalid UTF-8 in quoted names, \<open>stackerr\<close>'s stack traces (an
  error is its cause; \<open>stackerr.Wrap\<close> adds only a trace to the message), the kernel side of inotify (which events the
  filesystem produces is the schedule), the kernel side of a successful exec (the new
  image is assumed to be the same program, run by \<open>system_run\<close>), the runtime's timer
  heap (a timer is delivered as the schedule says), and scheduling delays of the Go runtime beyond what
  \<open>sched_ok\<close> allows.

  \<^bold>\<open>Assumptions of the model.\<close>  \<open>proc\<close> (\<open>os.Args\<close> and \<open>os.Environ()\<close>)
  is one value for the whole life of an image: the program never changes either, so the
  value read by the timer case (line 52) is the one the image started with; a change of
  the environment by other code of the host program (\<open>os.Setenv\<close>) is not modelled.
  \<open>system_run\<close> runs every image against the same \<open>world\<close>, and the next image
  receives the file events that follow the restart in the stream: events that happen
  between the exec and the new watcher's \<open>Add\<close>, which the kernel does not report,
  are taken as absent from the stream.  The \<open>for\<close> loop of the goroutine and the
  callers of \<open>Init\<close> are modelled separately (\<open>Watch\<close> and \<open>Once\<close>): they share
  no state besides \<open>once\<close>, which the goroutine never touches, and no claim is made of
  their interleaving.  Every line of src/devrestarter.go that is not a
  comment, an import or a blank is translated by a definition of the development.
\<close>

definition watch_goroutine ::
  "debug_fn \<Rightarrow> world \<Rightarrow> proc \<Rightarrow> (time_ms \<times> sel) list \<Rightarrow> werror + watch_ret" where
  "watch_goroutine dbg w p sched =
     (case watch dbg w p sched of Failed e wo l \<Rightarrow> Inl e | r \<Rightarrow> Inr r)"

definition relative_proc :: proc where
  "relative_proc = \<lparr>args = [''./app''], environ = [''PATH=/usr/bin'']\<rparr>"

definition path_proc :: proc where
  "path_proc = \<lparr>args = [''app''], environ = [''PATH=/usr/bin:/tmp/'']\<rparr>"

definition bare_proc :: proc where
  "bare_proc = \<lparr>args = [''app''], environ = [''HOME=/root'']\<rparr>"

definition relative_world :: world where
  "relative_world = demo_world\<lparr>is_exec := (\<lambda>q. q = ''./app'')\<rparr>"

text \<open>C10: diagnostic gating, from the environment to the log.  When
  \<open>RELOADER_DEBUG\<close> is unset or empty, \<open>init()\<close> installs \<open>noop\<close>, and no run of
  \<open>watch\<close>, whatever its outcome, writes a diagnostic line.\<close>

theorem diag_gating:
  "getenv (environ p) ''RELOADER_DEBUG'' = '''' \<Longrightarrow>
     filter is_diag (ret_logs (watch (init_debug (environ p)) w p sched)) = []"
  by (simp add: init_debug_def watch_Noop_no_diag)

text \<open>C13: the watch target is not made absolute.  When \<open>os.Args[0]\<close> contains a slash,
  the path \<open>watch\<close> watches and later executes is \<open>os.Args[0]\<close> itself, so a relative
  invocation such as \<open>./app\<close> stays relative.\<close>

theorem watch_target_verbatim:
  "watch_start dbg w p = Inr s \<Longrightarrow> CHR ''/'' \<in> set (hd (args p)) \<Longrightarrow> argv0 s = hd (args p)"
  by (auto simp: watch_start_Inr look_path_def split: if_splits option.splits)

text \<open>C18: every panic of the watch goroutine has a cause in the world.  When the
  goroutine that \<open>Init\<close> starts panics, its error is that of a system call that really
  failed, and names it: no inotify instance, an empty \<open>os.Args\<close>, \<open>os.Args[0]\<close> not
  found by \<open>exec.LookPath\<close>, a path the kernel refuses to watch, or an exec the kernel
  refuses.  In particular \<open>Add\<close> is never called on the closed watcher, and backend
  errors and the debounce never cause a panic.\<close>

theorem goroutine_panic_causes:
  "watch_goroutine dbg w p sched = Inl e \<Longrightarrow>
     (e = ErrNewWatcher \<and> \<not> inotify_ok w) \<or> (e = ErrArgsIndex \<and> args p = []) \<or>
     (args p \<noteq> [] \<and> e = ErrLookPath (hd (args p)) \<and>
        (\<forall>q. look_path (is_exec w) (getenv (environ p) ''PATH'') (hd (args p)) \<noteq> Inr q)) \<or>
     (\<exists>n. e = ErrAdd n \<and> \<not> add_ok w n) \<or> (\<exists>a. e = ErrExec a \<and> \<not> exec_ok w a)"
proof (cases "watch_start dbg w p")
  case (Inl r)
  moreover assume "watch_goroutine dbg w p sched = Inl e"
  ultimately obtain wo l where "watch_start dbg w p = Inl (Failed e wo l)"
    using watch_start_Inl [OF Inl]
    by (auto simp: watch_goroutine_def watch_def split: watch_ret.splits)
  then show ?thesis by (blast dest: watch_start_Failed_cause)
next
  case (Inr s)
  moreover assume "watch_goroutine dbg w p sched = Inl e"
  ultimately obtain wo l where run: "loop_run dbg w p s sched = Failed e wo l"
    by (auto simp: watch_goroutine_def watch_def split: watch_ret.splits)
  from Inr have "\<not> w_closed (wt s)" by (auto simp: watch_start_Inr)
  from loop_run_Failed_cause [OF this run] show ?thesis by blast
qed

text \<open>C19: a bare program name is resolved along \<open>$PATH\<close>.  When \<open>os.Args[0]\<close> has
  no slash, the path \<open>watch\<close> watches and later executes is the candidate
  \<open>filepath.Join(dir, os.Args[0])\<close> (cleaned) of the first entry of \<open>$PATH\<close>
  (an empty entry meaning the current directory) that names an executable; no earlier
  entry does.\<close>

theorem watch_target_path_search:
  "watch_start dbg w p = Inr s \<Longrightarrow> CHR ''/'' \<notin> set (hd (args p)) \<Longrightarrow>
     \<exists>ds1 d ds2. split_list (getenv (environ p) ''PATH'') = ds1 @ d # ds2 \<and>
       argv0 s = path_join (if d = [] then ''.'' else d) (hd (args p)) \<and> is_exec w (argv0 s) \<and>
       (\<forall>d' \<in> set ds1. \<not> is_exec w (path_join (if d' = [] then ''.'' else d') (hd (args p))))"
proof -
  assume st: "watch_start dbg w p = Inr s" and sl: "CHR ''/'' \<notin> set (hd (args p))"
  from st obtain a0 rest where ar: "args p = a0 # rest"
    and lp: "look_path (is_exec w) (getenv (environ p) ''PATH'') a0 = Inr (argv0 s)"
    by (auto simp: watch_start_Inr)
  from sl ar have "CHR ''/'' \<notin> set a0" by simp
  with lp have "find_exec (is_exec w) (split_list (getenv (environ p) ''PATH'')) a0 = Some (argv0 s)"
    by (simp add: look_path_def split: option.splits)
  from find_exec_first [OF this] ar show ?thesis by simp
qed

text \<open>C25: an empty search path.  When \<open>$PATH\<close> is unset or empty and \<open>os.Args[0]\<close> has
  no slash, \<open>exec.LookPath\<close> finds no candidate, and \<open>watch\<close> returns the LookPath
  error naming \<open>os.Args[0]\<close>, before writing any line, with the watcher it created
  closed by the deferred \<open>Close\<close>; whatever the schedule.\<close>

theorem watch_empty_path:
  "inotify_ok w \<Longrightarrow> args p = a0 # rest \<Longrightarrow> CHR ''/'' \<notin> set a0 \<Longrightarrow>
   getenv (environ p) ''PATH'' = [] \<Longrightarrow>
     watch dbg w p sched = Failed (ErrLookPath a0) (Some \<lparr>w_paths = [], w_closed = True\<rparr>) []"
  by (simp add: watch_def watch_start_def new_watcher_def look_path_def split_list_def
      watcher_close_def)

theorem diag_gating_witness:
  "getenv (environ demo_proc) ''RELOADER_DEBUG'' = '''' \<and>
   filter is_diag (ret_logs (watch (init_debug (environ demo_proc)) demo_world demo_proc
     [(0, Event demo_event), (100, WError ''overflow'')])) = []"
proof -
  have h: "getenv (environ demo_proc) ''RELOADER_DEBUG'' = ''''"
    by (simp add: demo_proc_def)
  from h diag_gating [OF h] show ?thesis by simp
qed

theorem watch_target_verbatim_witness:
  "watch_start Noop relative_world relative_proc =
     Inr \<lparr>argv0 = ''./app'', doit = None, wt = \<lparr>w_paths = [''./app''], w_closed = False\<rparr>,
          logs = []\<rparr> \<and>
   argv0 \<lparr>argv0 = ''./app'', doit = None, wt = \<lparr>w_paths = [''./app''], w_closed = False\<rparr>,
          logs = []\<rparr> = hd (args relative_proc)"
proof -
  have st: "watch_start Noop relative_world relative_proc =
     Inr \<lparr>argv0 = ''./app'', doit = None, wt = \<lparr>w_paths = [''./app''], w_closed = False\<rparr>,
          logs = []\<rparr>"
    by (simp add: watch_start_def relative_world_def relative_proc_def demo_simps)
  have sl: "CHR ''/'' \<in> set (hd (args relative_proc))" by (simp add: relative_proc_def)
  from st watch_target_verbatim [OF st sl] show ?thesis by simp
qed

theorem goroutine_panic_causes_witness:
  "watch_goroutine Noop (demo_world\<lparr>add_ok := (\<lambda>q. q = ''/tmp/app'')\<rparr>) demo_proc
      [(0, Event \<lparr>ev_name = ''/tmp/app.tmp'', ev_op = op_create\<rparr>)] = Inl (ErrAdd ''/tmp/app.tmp'') \<and>
   \<not> add_ok (demo_world\<lparr>add_ok := (\<lambda>q. q = ''/tmp/app'')\<rparr>) ''/tmp/app.tmp''"
proof -
  have run: "watch_goroutine Noop (demo_world\<lparr>add_ok := (\<lambda>q. q = ''/tmp/app'')\<rparr>) demo_proc
      [(0, Event \<lparr>ev_name = ''/tmp/app.tmp'', ev_op = op_create\<rparr>)] = Inl (ErrAdd ''/tmp/app.tmp'')"
    by (simp add: watch_goroutine_def watch_def watch_start_def loop_simps demo_simps Let_def)
  from goroutine_panic_causes [OF run] run show ?thesis by simp
qed

theorem watch_target_path_search_witness:
  "watch_start Noop demo_world path_proc =
     Inr \<lparr>argv0 = ''/tmp/app'', doit = None, wt = \<lparr>w_paths = [''/tmp/app''], w_closed = False\<rparr>,
          logs = []\<rparr> \<and>
   split_list (getenv (environ path_proc) ''PATH'') = [''/usr/bin''] @ ''/tmp/'' # [] \<and>
   (\<exists>ds1 d ds2. split_list (getenv (environ path_proc) ''PATH'') = ds1 @ d # ds2 \<and>
       ''/tmp/app'' = path_join (if d = [] then ''.'' else d) (hd (args path_proc)))"
proof -
  have sp: "split_list (getenv (environ path_proc) ''PATH'') = [''/usr/bin''] @ ''/tmp/'' # []"
    by (simp add: path_proc_def split_list_def)
  have st: "watch_start Noop demo_world path_proc =
     Inr \<lparr>argv0 = ''/tmp/app'', doit = None, wt = \<lparr>w_paths = [''/tmp/app''], w_closed = False\<rparr>,
          logs = []\<rparr>"
    using sp by (simp add: watch_start_def path_proc_def look_path_def path_join_def go_clean_def demo_simps)
  have sl: "CHR ''/'' \<notin> set (hd (args path_proc))" by (simp add: path_proc_def)
  obtain ds1 d ds2 where h: "split_list (getenv (environ path_proc) ''PATH'') = ds1 @ d # ds2"
    "argv0 \<lparr>argv0 = ''/tmp/app'', doit = None, wt = \<lparr>w_paths = [''/tmp/app''], w_closed = False\<rparr>,
          logs = []\<rparr> = path_join (if d = [] then ''.'' else d) (hd (args path_proc))"
    using watch_target_path_search [OF st sl] by blast
  from h(2) have "''/tmp/app'' = path_join (if d = [] then ''.'' else d) (hd (args path_proc))" by simp
  with h(1) st sp show ?thesis by blast
qed

theorem watch_empty_path_witness:
  "args bare_proc = ''app'' # [] \<and> getenv (environ bare_proc) ''PATH'' = [] \<and>
   watch Noop demo_world bare_proc [(0, Event demo_event)] =
     Failed (ErrLookPath ''app'') (Some \<lparr>w_paths = [], w_closed = True\<rparr>) []"
proof -
  have i: "inotify_ok demo_world" by (simp add: demo_world_def)
  have a: "args bare_proc = ''app'' # []" by (simp add: bare_proc_def)
  have s: "CHR ''/'' \<notin> set ''app''" by simp
  have e: "getenv (environ bare_proc) ''PATH'' = []" by (simp add: bare_proc_def)
  from watch_empty_path [OF i a s e] a e show ?thesis by simp
qed

end
